theory Spec2Isabelle
  imports Complex_Main "HOL-Library.List_Lexorder" "HOL-Library.Product_Lexorder"
begin

section \<open>Machine integers and library calls shared by the programs\<close>

text \<open>
  The C++ type \<open>int\<close> of the programs is 32 bits wide.  Values are modelled as
  \<^typ>\<open>int\<close>; wherever the source performs arithmetic that can leave the 32-bit
  range, the model has an explicit branch, because signed overflow is undefined
  behaviour in C++ and a library conversion such as \<open>std::stoi\<close> throws.
\<close>

definition INT_MAX :: int where
  "INT_MAX = 2147483647"

definition INT_MIN :: int where
  "INT_MIN = - 2147483648"



text \<open>Exceptions thrown by \<open>std::stoi\<close>.\<close>

datatype exn = InvalidArgument | OutOfRange

text \<open>\<open>isdigit\<close> and \<open>isspace\<close> of the C library, in the "C" locale.\<close>

definition isdigit :: "char \<Rightarrow> bool" where
  "isdigit c \<longleftrightarrow> 48 \<le> (of_char c :: nat) \<and> (of_char c :: nat) \<le> 57"

definition isspace :: "char \<Rightarrow> bool" where
  "isspace c \<longleftrightarrow> c \<in> {CHR '' '', CHR 0x09, CHR 0x0A, CHR 0x0B, CHR 0x0C, CHR 0x0D}"

definition digit_val :: "char \<Rightarrow> int" where
  "digit_val c = int (of_char c) - 48"

definition decimal :: "string \<Rightarrow> int" where
  "decimal ds = foldl (\<lambda>a c. 10 * a + digit_val c) 0 ds"

text \<open>
  \<open>std::stoi(str)\<close> with base 10: leading white space is skipped, an optional sign
  is read, then the longest run of digits; what follows is ignored.  No digit:
  \<open>std::invalid_argument\<close>.  A value outside \<open>int\<close>: \<open>std::out_of_range\<close>.
\<close>

definition stoi :: "string \<Rightarrow> exn + int" where
  "stoi s =
    (let s1 = dropWhile isspace s;
         neg = (s1 \<noteq> [] \<and> hd s1 = CHR ''-'');
         s2 = (if s1 \<noteq> [] \<and> (hd s1 = CHR ''-'' \<or> hd s1 = CHR ''+'') then tl s1 else s1);
         ds = takeWhile isdigit s2
     in if ds = [] then Inl InvalidArgument
        else let v = (if neg then - decimal ds else decimal ds)
             in if v < INT_MIN \<or> INT_MAX < v then Inl OutOfRange else Inr v)"

section \<open>Button-press program: \<open>parseButton\<close> and \<open>parseTarget\<close>\<close>

text \<open>
  Both functions run the same loop over the characters of the token: digits are
  collected in \<open>tmp\<close>; a non-digit ends the current run, which \<open>stoi\<close> converts and
  \<open>push_back\<close> appends to \<open>res\<close>.  After the loop a pending run is converted too.
  An exception of \<open>stoi\<close> leaves the function at once.
\<close>

fun parseButton_loop :: "string \<Rightarrow> int list \<Rightarrow> string \<Rightarrow> exn + int list" where
  "parseButton_loop [] res tmp =
     (if tmp \<noteq> [] then (case stoi tmp of Inl e \<Rightarrow> Inl e | Inr v \<Rightarrow> Inr (res @ [v]))
      else Inr res)"
| "parseButton_loop (c # cs) res tmp =
     (if isdigit c then parseButton_loop cs res (tmp @ [c])
      else if tmp \<noteq> [] then
        (case stoi tmp of Inl e \<Rightarrow> Inl e | Inr v \<Rightarrow> parseButton_loop cs (res @ [v]) [])
      else parseButton_loop cs res tmp)"

definition parseButton :: "string \<Rightarrow> exn + int list" where
  "parseButton s = parseButton_loop s [] []"

fun parseTarget_loop :: "string \<Rightarrow> int list \<Rightarrow> string \<Rightarrow> exn + int list" where
  "parseTarget_loop [] res tmp =
     (if tmp \<noteq> [] then (case stoi tmp of Inl e \<Rightarrow> Inl e | Inr v \<Rightarrow> Inr (res @ [v]))
      else Inr res)"
| "parseTarget_loop (c # cs) res tmp =
     (if isdigit c then parseTarget_loop cs res (tmp @ [c])
      else if tmp \<noteq> [] then
        (case stoi tmp of Inl e \<Rightarrow> Inl e | Inr v \<Rightarrow> parseTarget_loop cs (res @ [v]) [])
      else parseTarget_loop cs res tmp)"

definition parseTarget :: "string \<Rightarrow> exn + int list" where
  "parseTarget s = parseTarget_loop s [] []"

text \<open>
  The specification's reading: the maximal runs of decimal digits of the string, from
  left to right.
\<close>

function digit_runs :: "string \<Rightarrow> string list" where
  "digit_runs [] = []"
| "digit_runs (c # cs) =
     (if isdigit c then takeWhile isdigit (c # cs) # digit_runs (dropWhile isdigit cs)
      else digit_runs cs)"
  by pat_completeness auto
termination
  by (relation "measure length") (auto simp: length_dropWhile_le less_Suc_eq_le)

text \<open>
  Converting the runs as \<open>stoi\<close> does: every run is a non-empty digit string, so the only
  exception left is \<open>std::out_of_range\<close>, thrown when a run denotes more than \<open>INT_MAX\<close>.
\<close>

definition convert_runs :: "string list \<Rightarrow> exn + int list" where
  "convert_runs rs =
     (if \<forall>r \<in> set rs. decimal r \<le> INT_MAX then Inr (map decimal rs) else Inl OutOfRange)"

section \<open>Runs of a program\<close>

text \<open>
  What a run leaves behind: the text written to standard output and to standard error,
  and how the run ended: \<open>main\<close> returned (or \<open>exit\<close> was called) with a status; an
  exception reached \<open>main\<close>'s caller, so that \<open>std::terminate\<close> aborted the process; or
  the program ran into undefined behaviour.  A run that never ends is \<open>None\<close> in the
  functions below.  The input is the argument vector and the files that can be opened.
\<close>

datatype fault = OutOfBounds | SignedOverflow

datatype ending = Exit int | Terminate exn | Undefined fault

record run =
  out :: string
  err :: string
  ending :: ending

type_synonym files = "string \<rightharpoonup> string"

text \<open>\<open>std::endl\<close> and \<open>"\\n"\<close> both write a line feed.\<close>

definition endl :: string where
  "endl = [CHR 0x0A]"

text \<open>\<open>operator<<\<close> for integers: decimal digits, a minus sign for a negative value.\<close>

definition digit_char :: "nat \<Rightarrow> char" where
  "digit_char d = ''0123456789'' ! d"

fun show_nat :: "nat \<Rightarrow> string" where
  "show_nat n = (if n < 10 then [digit_char n] else show_nat (n div 10) @ [digit_char (n mod 10)])"

definition show_int :: "int \<Rightarrow> string" where
  "show_int i = (if i < 0 then CHR ''-'' # show_nat (nat (- i)) else show_nat (nat i))"

text \<open>
  \<open>std::getline(stream, line, delim)\<close> called until it fails: the pieces of the text
  between delimiters.  A last piece without a delimiter is a piece if it is not empty; a
  final delimiter starts none.  \<open>getlines\<close> is the case of a file read line by line.
\<close>

fun getline_all :: "char \<Rightarrow> string \<Rightarrow> string \<Rightarrow> string list" where
  "getline_all delim [] line = (if line = [] then [] else [line])"
| "getline_all delim (c # cs) line =
     (if c = delim then line # getline_all delim cs [] else getline_all delim cs (line @ [c]))"

definition getlines :: "string \<Rightarrow> string list" where
  "getlines content = getline_all (CHR 0x0A) content []"

text \<open>
  \<open>while (ss >> token)\<close>: the maximal runs of characters that are not white space.
\<close>

function tokens_of :: "string \<Rightarrow> string list" where
  "tokens_of [] = []"
| "tokens_of (c # cs) =
     (if isspace c then tokens_of cs
      else takeWhile (\<lambda>x. \<not> isspace x) (c # cs) # tokens_of (dropWhile (\<lambda>x. \<not> isspace x) cs))"
  by pat_completeness auto
termination
  by (relation "measure length") (auto simp: length_dropWhile_le less_Suc_eq_le)

section \<open>Day 7: row-by-row beam simulation\<close>

text \<open>
  The loop of \<open>Day7/walkthrough.md\<close> (Python).  \<open>current_beams\<close> and \<open>next_beams\<close> are
  Python sets of column indices; they are lists without duplicates here, \<open>add\<close> being
  \<^const>\<open>List.insert\<close>.  The body treats every beam of the row on its own, so the split
  count and the set of next beams do not depend on the order of iteration.
  \<open>grid[r][c]\<close> raises \<open>IndexError\<close> when the row is shorter than \<open>c + 1\<close>: the result is
  \<open>None\<close> then.  Columns never go negative because of the guard \<open>c - 1 >= 0\<close>.
\<close>

fun beams_row :: "string \<Rightarrow> int \<Rightarrow> int list \<Rightarrow> int list \<Rightarrow> int \<Rightarrow> (int list \<times> int) option" where
  "beams_row row cols [] next_beams splits = Some (next_beams, splits)"
| "beams_row row cols (c # cs) next_beams splits =
     (if \<not> nat c < length row then None
      else if row ! nat c = CHR ''^'' then
        beams_row row cols cs
          (let n1 = (if c - 1 \<ge> 0 then List.insert (c - 1) next_beams else next_beams)
           in if c + 1 < cols then List.insert (c + 1) n1 else n1)
          (splits + 1)
      else if row ! nat c = CHR ''.'' then
        beams_row row cols cs (List.insert c next_beams) splits
      else beams_row row cols cs next_beams splits)"

text \<open>The outer loop \<open>for r in range(1, rows)\<close>, over the rows after the first.\<close>

fun simulate_rows :: "string list \<Rightarrow> int \<Rightarrow> int list \<Rightarrow> int \<Rightarrow> int option" where
  "simulate_rows [] cols current_beams splits = Some splits"
| "simulate_rows (row # rows) cols current_beams splits =
     (case beams_row row cols current_beams [] splits of
        None \<Rightarrow> None
      | Some (next_beams, splits') \<Rightarrow> simulate_rows rows cols next_beams splits')"

text \<open>
  Modelled from the spec: the start of the simulation.  The file \<open>day7.py\<close> is not among
  the sources; the walkthrough shows its loop only and describes the rest in words:
  the input is read into a grid, the \<open>S\<close> of the first row is the initial beam, and the
  number of splits is counted from zero.  \<open>cols\<close> is the width of the first row.
\<close>

fun find_col :: "char \<Rightarrow> string \<Rightarrow> int \<Rightarrow> int option" where
  "find_col x [] i = None"
| "find_col x (c # cs) i = (if c = x then Some i else find_col x cs (i + 1))"

definition count_splits :: "string list \<Rightarrow> int option" where
  "count_splits grid =
     (case grid of
        [] \<Rightarrow> None
      | first # rest \<Rightarrow>
          (case find_col (CHR ''S'') first 0 of
             None \<Rightarrow> None
           | Some c \<Rightarrow> simulate_rows rest (int (length first)) [c] 0))"

text \<open>
  Modelled from the spec: the documented example grid.  The example file of Day 7 is not
  among the sources; this is the example of the puzzle text, for which the walkthrough
  records 21 splits.
\<close>

definition example_grid :: "string list" where
  "example_grid =
    [''.......S.......'',
     ''...............'',
     ''.......^.......'',
     ''...............'',
     ''......^.^......'',
     ''...............'',
     ''.....^.^.^.....'',
     ''...............'',
     ''....^.^...^....'',
     ''...............'',
     ''...^.^...^.^...'',
     ''...............'',
     ''..^...^.....^..'',
     ''...............'',
     ''.^.^.^.^.^...^.'',
     ''...............'']"

section \<open>Button-press program: \<open>minPresses\<close>\<close>

text \<open>
  \<open>struct Machine\<close>.  Button entries and counters are C++ \<open>int\<close>s.
\<close>

record machine =
  buttons :: "int list list"
  target :: "int list"

text \<open>\<open>for (int idx : btn) next[idx]++;\<close> on the copy \<open>next\<close> of the current state.\<close>

fun press :: "int list \<Rightarrow> int list \<Rightarrow> fault + int list" where
  "press [] next = Inr next"
| "press (idx # btn) next =
     (if idx < 0 \<or> int (length next) \<le> idx then Inl OutOfBounds
      else if next ! nat idx = INT_MAX then Inl SignedOverflow
      else press btn (next[nat idx := next ! nat idx + 1]))"

text \<open>
  The loop over the buttons inside the search.  \<open>q\<close> is the queue (front first), \<open>distm\<close> (\<open>dist\<close> in the source)
  the \<open>std::map\<close> from states to press counts.  \<open>presses + 1\<close> is evaluated for every
  button pressed.
\<close>

type_synonym bfs_queue = "(int list \<times> int) list"
type_synonym dist_map = "int list \<rightharpoonup> int"

fun expand :: "int list list \<Rightarrow> int list \<Rightarrow> int \<Rightarrow> bfs_queue \<times> dist_map \<Rightarrow> fault + bfs_queue \<times> dist_map" where
  "expand [] cur presses (q, distm) = Inr (q, distm)"
| "expand (btn # btns) cur presses (q, distm) =
     (case press btn cur of
        Inl f \<Rightarrow> Inl f
      | Inr next \<Rightarrow>
          if presses = INT_MAX then Inl SignedOverflow
          else if distm next = None \<or> the (distm next) > presses + 1 then
            expand btns cur presses (q @ [(next, presses + 1)], distm(next \<mapsto> presses + 1))
          else expand btns cur presses (q, distm))"

text \<open>
  The \<open>while (!q.empty())\<close> loop.  It need not terminate, so it is a partial function:
  \<open>None\<close> stands for a run that never leaves the loop.
\<close>

partial_function (option) minPresses_loop :: "machine \<Rightarrow> bfs_queue \<times> dist_map \<Rightarrow> (fault + int) option" where
  "minPresses_loop m qd =
     (case fst qd of
        [] \<Rightarrow> Some (Inr (- 1))
      | (cur, presses) # q' \<Rightarrow>
          if cur = target m then Some (Inr presses)
          else (case expand (buttons m) cur presses (q', snd qd) of
                  Inl f \<Rightarrow> Some (Inl f)
                | Inr qd' \<Rightarrow> minPresses_loop m qd'))"

definition minPresses :: "machine \<Rightarrow> (fault + int) option" where
  "minPresses m =
     (let n = length (target m);
          start = replicate n 0
      in minPresses_loop m ([(start, 0)], [start \<mapsto> 0]))"

text \<open>
  The claim's reading of a press: a button adds 1 to every counter index it lists; a
  sequence of presses starts from the all-zeros vector.
\<close>

definition add_one :: "int list \<Rightarrow> int \<Rightarrow> int list" where
  "add_one s idx = s[nat idx := s ! nat idx + 1]"

definition press_effect :: "int list \<Rightarrow> int list \<Rightarrow> int list" where
  "press_effect btn s = foldl add_one s btn"

definition run_presses :: "nat \<Rightarrow> int list list \<Rightarrow> int list" where
  "run_presses n bs = foldl (\<lambda>s btn. press_effect btn s) (replicate n 0) bs"

text \<open>A machine whose buttons name counters that exist.\<close>

definition indices_in_range :: "machine \<Rightarrow> bool" where
  "indices_in_range m \<longleftrightarrow>
     (\<forall>btn \<in> set (buttons m). \<forall>idx \<in> set btn. 0 \<le> idx \<and> idx < int (length (target m)))"

text \<open>
  The search stays inside the \<open>int\<close> range up to \<open>k\<close> presses: no sequence of at most \<open>k\<close>
  presses takes a counter above \<open>INT_MAX\<close>, and \<open>k\<close> itself is an \<open>int\<close>.
\<close>

definition within_int :: "machine \<Rightarrow> nat \<Rightarrow> bool" where
  "within_int m k \<longleftrightarrow>
     int k \<le> INT_MAX \<and>
     (\<forall>bs. set bs \<subseteq> set (buttons m) \<longrightarrow> length bs \<le> k \<longrightarrow>
        (\<forall>c \<in> set (run_presses (length (target m)) bs). c \<le> INT_MAX))"


text \<open>
  \<open>main\<close>, the body of the \<open>getline\<close> loop: an empty line and a line of fewer than two
  tokens are skipped (\<open>None\<close>).  Otherwise the last token is the target, the tokens
  between the first and the last are the buttons.  An exception of \<open>stoi\<close> leaves \<open>main\<close>.
\<close>

fun parse_buttons :: "string list \<Rightarrow> exn + int list list" where
  "parse_buttons [] = Inr []"
| "parse_buttons (t # ts) =
     (case parseButton t of
        Inl e \<Rightarrow> Inl e
      | Inr b \<Rightarrow> (case parse_buttons ts of Inl e \<Rightarrow> Inl e | Inr bs \<Rightarrow> Inr (b # bs)))"

definition parse_machine_line :: "string \<Rightarrow> exn + machine option" where
  "parse_machine_line line =
     (if line = [] then Inr None
      else let tokens = tokens_of line in
        if length tokens < 2 then Inr None
        else (case parseTarget (last tokens) of
                Inl e \<Rightarrow> Inl e
              | Inr t \<Rightarrow>
                  (case parse_buttons (butlast (tl tokens)) of
                     Inl e \<Rightarrow> Inl e
                   | Inr bs \<Rightarrow> Inr (Some \<lparr>buttons = bs, target = t\<rparr>))))"

fun read_machines :: "string list \<Rightarrow> exn + machine list" where
  "read_machines [] = Inr []"
| "read_machines (line # lines) =
     (case parse_machine_line line of
        Inl e \<Rightarrow> Inl e
      | Inr mo \<Rightarrow>
          (case read_machines lines of
             Inl e \<Rightarrow> Inl e
           | Inr ms \<Rightarrow> Inr (case mo of None \<Rightarrow> ms | Some m \<Rightarrow> m # ms)))"

text \<open>
  The loop over the machines: the output so far and \<open>tot\<close> (\<open>total\<close> in the source)
  are threaded through.  \<open>total += presses\<close> is an \<open>int\<close> addition.
\<close>

fun sum_presses :: "machine list \<Rightarrow> string \<Rightarrow> int \<Rightarrow> run option" where
  "sum_presses [] so_far tot =
     Some \<lparr>out = so_far @ ''Fewest button presses: '' @ show_int tot @ endl, err = [],
           ending = Exit 0\<rparr>"
| "sum_presses (m # ms) so_far tot =
     (case minPresses m of
        None \<Rightarrow> None
      | Some (Inl f) \<Rightarrow> Some \<lparr>out = so_far, err = [], ending = Undefined f\<rparr>
      | Some (Inr presses) \<Rightarrow>
          if presses = - 1 then sum_presses ms (so_far @ ''Machine unreachable!'' @ endl) tot
          else if tot + presses > INT_MAX then
            Some \<lparr>out = so_far, err = [], ending = Undefined SignedOverflow\<rparr>
          else sum_presses ms so_far (tot + presses))"

definition main_buttons :: "string list \<Rightarrow> files \<Rightarrow> run option" where
  "main_buttons argv fs =
     (if length argv < 2 then
        Some \<lparr>out = [], err = ''Usage: '' @ (if argv = [] then [] else hd argv) @ '' input.txt'' @ endl,
              ending = Exit 1\<rparr>
      else (case fs (argv ! 1) of
              None \<Rightarrow>
                Some \<lparr>out = [], err = ''Cannot open file: '' @ argv ! 1 @ endl, ending = Exit 1\<rparr>
            | Some content \<Rightarrow>
                (case read_machines (getlines content) of
                   Inl e \<Rightarrow> Some \<lparr>out = [], err = [], ending = Terminate e\<rparr>
                 | Inr machines \<Rightarrow> sum_presses machines [] 0)))"
text \<open>
  Notions used to state and prove what the search computes.  \<open>reach m k s\<close>: the state \<open>s\<close>
  is the result of some sequence of exactly \<open>k\<close> presses of buttons of \<open>m\<close>.
\<close>

definition reach :: "machine \<Rightarrow> nat \<Rightarrow> int list \<Rightarrow> bool" where
  "reach m k s \<longleftrightarrow>
     (\<exists>bs. set bs \<subseteq> set (buttons m) \<and> length bs = k \<and>
           run_presses (length (target m)) bs = s)"

text \<open>
  The invariant of the \<open>while\<close> loop of \<open>minPresses\<close>, in the usual form for a
  breadth-first search: queue entries carry their entry of \<open>distm\<close>; \<open>distm\<close> holds
  shortest press counts; the queue is sorted and spans at most two levels; a state that
  has left the queue is not the target and has all its successors recorded; every state
  within the level of the queue's front is recorded.
\<close>

definition bfs_inv :: "machine \<Rightarrow> bfs_queue \<Rightarrow> dist_map \<Rightarrow> bool" where
  "bfs_inv m q distm \<longleftrightarrow>
     (\<forall>(s, p) \<in> set q. distm s = Some p) \<and>
     (\<forall>s p. distm s = Some p \<longrightarrow>
        0 \<le> p \<and> reach m (nat p) s \<and> (\<forall>k. reach m k s \<longrightarrow> nat p \<le> k)) \<and>
     sorted (map snd q) \<and>
     (\<forall>(s, p) \<in> set q. p \<le> snd (hd q) + 1) \<and>
     (\<forall>s \<in> dom distm. s \<notin> fst ` set q \<longrightarrow>
        s \<noteq> target m \<and> (\<forall>b \<in> set (buttons m). press_effect b s \<in> dom distm)) \<and>
     (q \<noteq> [] \<longrightarrow> (\<forall>k s. reach m k s \<longrightarrow> int k \<le> snd (hd q) \<longrightarrow> s \<in> dom distm)) \<and>
     replicate (length (target m)) 0 \<in> dom distm"

declare minPresses_loop.simps [code]

text \<open>
  Modelled from the spec: the documented example input.  The example file
  (\<open>Day10/input.md\<close>) is not among the sources.  These are the three machines of the
  puzzle's example; the comments of \<open>parseButton\<close> and \<open>parseTarget\<close> quote the button
  \<open>(1,3)\<close> and the target \<open>{3,5,4,7}\<close> of the first one, and \<open>Day10/README.md\<close> records the
  example's results: 2, 3 and 2 presses (7 in all) for the indicator lights of Part 1,
  and 10, 12 and 11 presses (33 in all) for the counters of Part 2.  The first token of
  each line (the light diagram) is skipped by \<open>main\<close>.
\<close>

definition example_lines :: "string list" where
  "example_lines =
    [''[.##.] (3) (1,3) (2) (2,3) (0,2) (0,1) {3,5,4,7}'',
     ''[...#.] (0,2,3,4) (2,3) (0,4) (0,1,2) (1,2,3,4) {7,5,12,7,2}'',
     ''[.###.#] (0,1,2,3,4) (0,3,4) (0,1,2,4,5) (1,2) {10,11,11,5,10,5}'']"

definition example_machine1 :: machine where
  "example_machine1 =
     \<lparr>buttons = [[3], [1, 3], [2], [2, 3], [0, 2], [0, 1]], target = [3, 5, 4, 7]\<rparr>"

definition example_machine2 :: machine where
  "example_machine2 =
     \<lparr>buttons = [[0, 2, 3, 4], [2, 3], [0, 4], [0, 1, 2], [1, 2, 3, 4]],
      target = [7, 5, 12, 7, 2]\<rparr>"

definition example_machine3 :: machine where
  "example_machine3 =
     \<lparr>buttons = [[0, 1, 2, 3, 4], [0, 3, 4], [0, 1, 2, 4, 5], [1, 2]],
      target = [10, 11, 11, 5, 10, 5]\<rparr>"

text \<open>
  The states of the search on the machine with the single button \<open>(0)\<close> and the target
  \<open>{0,1}\<close>: after \<open>k\<close> iterations the map holds \<open>[j, 0] \<mapsto> j\<close> for \<open>j \<le> k\<close>.
\<close>

definition chain_dist :: "int \<Rightarrow> dist_map" where
  "chain_dist k = (\<lambda>s. if length s = 2 \<and> s ! 1 = 0 \<and> 0 \<le> s ! 0 \<and> s ! 0 \<le> k
                        then Some (s ! 0) else None)"

text \<open>The example as the content of an input file, and a run of the program on it.\<close>

definition example_input :: string where
  "example_input = concat (map (\<lambda>l. l @ endl) example_lines)"

definition unreachable_machine :: machine where
  "unreachable_machine = \<lparr>buttons = [[0]], target = [0, 1]\<rparr>"

section \<open>Day 10, Part 2: the bounded search and the Dijkstra search\<close>

text \<open>
  \<open>parse_machine_part2\<close> is the same text in \<open>solution_part2.cpp\<close> and in
  \<open>solution_part2_dijkstra.cpp\<close>.  \<open>regex_search\<close> with \<open>\\([^\\)]+\\)\<close> finds the leftmost
  opening character that is followed by at least one character other than the closing
  one and then by the closing one; the match ends at the first closing character.
  \<open>inner_group\<close> returns the text between the two and the text after the match.
\<close>

fun inner_group :: "char \<Rightarrow> char \<Rightarrow> string \<Rightarrow> (string \<times> string) option" where
  "inner_group opn cls [] = None"
| "inner_group opn cls (c # cs) =
     (if c = opn \<and> takeWhile (\<lambda>x. x \<noteq> cls) cs \<noteq> [] \<and> dropWhile (\<lambda>x. x \<noteq> cls) cs \<noteq> []
      then Some (takeWhile (\<lambda>x. x \<noteq> cls) cs, tl (dropWhile (\<lambda>x. x \<noteq> cls) cs))
      else inner_group opn cls cs)"

text \<open>\<open>while (getline(ss, token, ',')) v.push_back(stoi(token));\<close>\<close>

fun stoi_all :: "string list \<Rightarrow> exn + int list" where
  "stoi_all [] = Inr []"
| "stoi_all (t # ts) =
     (case stoi t of
        Inl e \<Rightarrow> Inl e
      | Inr v \<Rightarrow> (case stoi_all ts of Inl e \<Rightarrow> Inl e | Inr vs \<Rightarrow> Inr (v # vs)))"

definition comma_ints :: "string \<Rightarrow> exn + int list" where
  "comma_ints s = stoi_all (getline_all (CHR '','') s [])"

lemma inner_group_shorter:
  "inner_group opn cls s = Some (inner, rest) \<Longrightarrow> length rest < length s"
proof (induction s)
  case Nil
  then show ?case by simp
next
  case (Cons c cs)
  have "length (tl (dropWhile (\<lambda>x. x \<noteq> cls) cs)) \<le> length (dropWhile (\<lambda>x. x \<noteq> cls) cs)"
    by simp
  also have "\<dots> \<le> length cs" by (rule length_dropWhile_le)
  finally have "length (tl (dropWhile (\<lambda>x. x \<noteq> cls) cs)) \<le> length cs" .
  then show ?case using Cons by (auto split: if_splits)
qed

function find_buttons :: "string \<Rightarrow> exn + int list list" where
  "find_buttons s =
     (case inner_group (CHR ''('') (CHR '')'') s of
        None \<Rightarrow> Inr []
      | Some (button_str, rest) \<Rightarrow>
          (case comma_ints button_str of
             Inl e \<Rightarrow> Inl e
           | Inr button \<Rightarrow>
               (case find_buttons rest of Inl e \<Rightarrow> Inl e | Inr bs \<Rightarrow> Inr (button # bs))))"
  by pat_completeness auto
termination
  by (relation "measure length") (auto dest: inner_group_shorter)

definition parse_machine_part2 :: "string \<Rightarrow> exn + (int list list \<times> int list)" where
  "parse_machine_part2 line =
     (case find_buttons line of
        Inl e \<Rightarrow> Inl e
      | Inr buttons' \<Rightarrow>
          (case inner_group (CHR ''{'') (CHR ''}'') line of
             None \<Rightarrow> Inr (buttons', [])
           | Some (target_str, rest) \<Rightarrow>
               (case comma_ints target_str of
                  Inl e \<Rightarrow> Inl e
                | Inr targets \<Rightarrow> Inr (buttons', targets))))"

text \<open>
  The loop \<open>for (int counter_idx : buttons[button_idx])\<close>, the same in both solvers.
  \<open>Inr None\<close>: \<open>valid\<close> became false and the loop was left; \<open>Inr (Some s)\<close>: the loop ended
  with \<open>valid\<close> true and \<open>new_state = s\<close>.  An entry \<open>counter_idx >= n\<close> is skipped; a
  negative one passes the test \<open>counter_idx < n\<close> and indexes outside the vector.
\<close>

fun apply_button :: "int list \<Rightarrow> int list \<Rightarrow> int list \<Rightarrow> fault + int list option" where
  "apply_button targets [] new_state = Inr (Some new_state)"
| "apply_button targets (counter_idx # rest) new_state =
     (if counter_idx < int (length targets) then
        (if counter_idx < 0 then Inl OutOfBounds
         else if new_state ! nat counter_idx = INT_MAX then Inl SignedOverflow
         else if new_state ! nat counter_idx + 1 > targets ! nat counter_idx then Inr None
         else apply_button targets rest
                (new_state[nat counter_idx := new_state ! nat counter_idx + 1]))
      else apply_button targets rest new_state)"

subsection \<open>\<open>solve_machine_part2_bounded\<close>\<close>

text \<open>
  A queue item is \<open>(current_state, presses, press_counts)\<close>; \<open>visited\<close> is the
  \<open>unordered_set\<close>.  \<open>try_buttons_bounded\<close> is the loop over \<open>button_idx\<close>, from the given
  index on.  \<open>presses + 1\<close> cannot overflow: the loop is entered with
  \<open>presses < best_cost\<close> only.
\<close>

type_synonym queue_item = "int list \<times> int \<times> int list"

fun try_buttons_bounded ::
  "int list \<Rightarrow> int \<Rightarrow> int list list \<Rightarrow> nat \<Rightarrow> int list \<Rightarrow> int \<Rightarrow> int list \<Rightarrow>
   queue_item list \<times> int list set \<Rightarrow> fault + queue_item list \<times> int list set" where
  "try_buttons_bounded targets cap [] button_idx current_state presses press_counts (q, visited) =
     Inr (q, visited)"
| "try_buttons_bounded targets cap (button # rest) button_idx current_state presses press_counts
     (q, visited) =
     (if press_counts ! button_idx \<ge> cap then
        try_buttons_bounded targets cap rest (Suc button_idx) current_state presses press_counts
          (q, visited)
      else
        (case apply_button targets button current_state of
           Inl f \<Rightarrow> Inl f
         | Inr None \<Rightarrow>
             try_buttons_bounded targets cap rest (Suc button_idx) current_state presses
               press_counts (q, visited)
         | Inr (Some new_state) \<Rightarrow>
             (let new_press_counts = press_counts[button_idx := press_counts ! button_idx + 1]
              in if new_state \<notin> visited then
                   try_buttons_bounded targets cap rest (Suc button_idx) current_state presses
                     press_counts
                     (q @ [(new_state, presses + 1, new_press_counts)], insert new_state visited)
                 else
                   try_buttons_bounded targets cap rest (Suc button_idx) current_state presses
                     press_counts (q, visited))))"

text \<open>
  One iteration of \<open>while (!q.empty())\<close> on the configuration \<open>(q, visited, best_cost)\<close>:
  \<open>Inl\<close> is the value returned after the loop (or a fault), \<open>Inr\<close> the next configuration.
\<close>

type_synonym bounded_config = "queue_item list \<times> int list set \<times> int"

definition bounded_step ::
  "int list list \<Rightarrow> int list \<Rightarrow> int \<Rightarrow> bounded_config \<Rightarrow> (fault + int) + bounded_config" where
  "bounded_step buttons' targets cap cfg =
     (case cfg of (q, visited, best_cost) \<Rightarrow>
        (case q of
           [] \<Rightarrow> Inl (Inr (if best_cost \<noteq> INT_MAX then best_cost else - 1))
         | (current_state, presses, press_counts) # q' \<Rightarrow>
             if current_state = targets then Inr (q', visited, min best_cost presses)
             else if presses \<ge> best_cost then Inr (q', visited, best_cost)
             else (case try_buttons_bounded targets cap buttons' 0 current_state presses
                          press_counts (q', visited) of
                     Inl f \<Rightarrow> Inl (Inl f)
                   | Inr (q'', visited') \<Rightarrow> Inr (q'', visited', best_cost))))"

partial_function (option) bounded_loop ::
  "int list list \<Rightarrow> int list \<Rightarrow> int \<Rightarrow> bounded_config \<Rightarrow> (fault + int) option" where
  "bounded_loop buttons' targets cap cfg =
     (case bounded_step buttons' targets cap cfg of
        Inl r \<Rightarrow> Some r
      | Inr cfg' \<Rightarrow> bounded_loop buttons' targets cap cfg')"

declare bounded_loop.simps [code]

definition bounded_init :: "int list list \<Rightarrow> int list \<Rightarrow> bounded_config" where
  "bounded_init buttons' targets =
     (let start_state = replicate (length targets) 0
      in ([(start_state, 0, replicate (length buttons') 0)], {start_state}, INT_MAX))"

definition solve_machine_part2_bounded :: "int list list \<Rightarrow> int list \<Rightarrow> int \<Rightarrow> (fault + int) option" where
  "solve_machine_part2_bounded buttons' targets max_presses_per_button =
     bounded_loop buttons' targets max_presses_per_button (bounded_init buttons' targets)"

text \<open>The configurations the loop goes through.\<close>

inductive bounded_visits :: "int list list \<Rightarrow> int list \<Rightarrow> int \<Rightarrow> bounded_config \<Rightarrow> bool"
  for buttons' targets cap where
  start: "bounded_visits buttons' targets cap (bounded_init buttons' targets)"
| step: "bounded_visits buttons' targets cap cfg \<Longrightarrow>
         bounded_step buttons' targets cap cfg = Inr cfg' \<Longrightarrow>
         bounded_visits buttons' targets cap cfg'"

subsection \<open>\<open>solve_machine_part2_dijkstra\<close>\<close>

text \<open>
  An item of the priority queue is \<open>(cost, current_state, press_counts)\<close>.  With
  \<open>greater<PQItem>\<close> the top is the least item in the order of \<open>std::tuple\<close>, which is
  lexicographic, over the lexicographic order of \<open>std::vector\<close>: the orders of
  \<open>HOL-Library.Product_Lexorder\<close> and \<open>HOL-Library.List_Lexorder\<close>.  The queue is
  kept as a sorted list: \<open>push\<close> is \<^const>\<open>insort\<close>, \<open>top\<close> the head, \<open>pop\<close> the tail.  Items
  that compare equal are equal, so the heap's internal layout shows nowhere.
  \<open>min_cost\<close> is the \<open>unordered_map\<close>; \<open>min_cost[current_state]\<close> would insert the value 0
  for an absent key.  \<open>new_cost = cost + 1\<close> is an \<open>int\<close> addition.
\<close>

type_synonym pq_item = "int \<times> int list \<times> int list"

fun try_buttons_dijkstra ::
  "int list \<Rightarrow> int \<Rightarrow> int list list \<Rightarrow> nat \<Rightarrow> int list \<Rightarrow> int \<Rightarrow> int list \<Rightarrow>
   pq_item list \<times> dist_map \<Rightarrow> fault + pq_item list \<times> dist_map" where
  "try_buttons_dijkstra targets cap [] button_idx current_state cost press_counts (pq, min_cost) =
     Inr (pq, min_cost)"
| "try_buttons_dijkstra targets cap (button # rest) button_idx current_state cost press_counts
     (pq, min_cost) =
     (if press_counts ! button_idx \<ge> cap then
        try_buttons_dijkstra targets cap rest (Suc button_idx) current_state cost press_counts
          (pq, min_cost)
      else
        (case apply_button targets button current_state of
           Inl f \<Rightarrow> Inl f
         | Inr None \<Rightarrow>
             try_buttons_dijkstra targets cap rest (Suc button_idx) current_state cost
               press_counts (pq, min_cost)
         | Inr (Some new_state) \<Rightarrow>
             (let new_press_counts = press_counts[button_idx := press_counts ! button_idx + 1]
              in if cost = INT_MAX then Inl SignedOverflow
                 else if min_cost new_state = None \<or> cost + 1 < the (min_cost new_state) then
                   try_buttons_dijkstra targets cap rest (Suc button_idx) current_state cost
                     press_counts
                     (insort (cost + 1, new_state, new_press_counts) pq,
                      min_cost(new_state \<mapsto> cost + 1))
                 else
                   try_buttons_dijkstra targets cap rest (Suc button_idx) current_state cost
                     press_counts (pq, min_cost))))"

type_synonym dijkstra_config = "pq_item list \<times> dist_map"

definition dijkstra_step ::
  "int list list \<Rightarrow> int list \<Rightarrow> int \<Rightarrow> dijkstra_config \<Rightarrow> (fault + int) + dijkstra_config" where
  "dijkstra_step buttons' targets cap cfg =
     (case cfg of (pq, min_cost) \<Rightarrow>
        (case pq of
           [] \<Rightarrow> Inl (Inr (- 1))
         | (cost, current_state, press_counts) # pq' \<Rightarrow>
             (let min_cost1 = (if min_cost current_state = None
                               then min_cost(current_state \<mapsto> 0) else min_cost)
              in if cost > the (min_cost1 current_state) then Inr (pq', min_cost1)
                 else if current_state = targets then Inl (Inr cost)
                 else (case try_buttons_dijkstra targets cap buttons' 0 current_state cost
                              press_counts (pq', min_cost1) of
                         Inl f \<Rightarrow> Inl (Inl f)
                       | Inr cfg' \<Rightarrow> Inr cfg'))))"

partial_function (option) dijkstra_loop ::
  "int list list \<Rightarrow> int list \<Rightarrow> int \<Rightarrow> dijkstra_config \<Rightarrow> (fault + int) option" where
  "dijkstra_loop buttons' targets cap cfg =
     (case dijkstra_step buttons' targets cap cfg of
        Inl r \<Rightarrow> Some r
      | Inr cfg' \<Rightarrow> dijkstra_loop buttons' targets cap cfg')"

declare dijkstra_loop.simps [code]

definition dijkstra_init :: "int list list \<Rightarrow> int list \<Rightarrow> dijkstra_config" where
  "dijkstra_init buttons' targets =
     (let start_state = replicate (length targets) 0
      in ([(0, start_state, replicate (length buttons') 0)], [start_state \<mapsto> 0]))"

definition solve_machine_part2_dijkstra :: "int list list \<Rightarrow> int list \<Rightarrow> int \<Rightarrow> (fault + int) option" where
  "solve_machine_part2_dijkstra buttons' targets max_presses_per_button =
     dijkstra_loop buttons' targets max_presses_per_button (dijkstra_init buttons' targets)"

inductive dijkstra_visits :: "int list list \<Rightarrow> int list \<Rightarrow> int \<Rightarrow> dijkstra_config \<Rightarrow> bool"
  for buttons' targets cap where
  start: "dijkstra_visits buttons' targets cap (dijkstra_init buttons' targets)"
| step: "dijkstra_visits buttons' targets cap cfg \<Longrightarrow>
         dijkstra_step buttons' targets cap cfg = Inr cfg' \<Longrightarrow>
         dijkstra_visits buttons' targets cap cfg'"

text \<open>The default arguments of the two solvers.\<close>

definition bounded_default :: "int list list \<Rightarrow> int list \<Rightarrow> (fault + int) option" where
  "bounded_default buttons' targets = solve_machine_part2_bounded buttons' targets 50"

definition dijkstra_default :: "int list list \<Rightarrow> int list \<Rightarrow> (fault + int) option" where
  "dijkstra_default buttons' targets = solve_machine_part2_dijkstra buttons' targets 100"

text \<open>The property of claim C9 for one state: every counter is between 0 and its target.\<close>

definition within_targets :: "int list \<Rightarrow> int list \<Rightarrow> bool" where
  "within_targets targets state \<longleftrightarrow>
     length state = length targets \<and>
     (\<forall>i < length targets. 0 \<le> state ! i \<and> state ! i \<le> targets ! i)"

subsection \<open>\<open>main\<close> of the two Day 10 programs\<close>






subsection \<open>Notions used to compare the two solvers\<close>

text \<open>
  A machine line on which neither solver can fault: every target is an \<open>int\<close> between 0
  and \<open>INT_MAX - 1\<close>, and no button entry is negative.
\<close>

definition well_formed_machine :: "int list list \<Rightarrow> int list \<Rightarrow> bool" where
  "well_formed_machine buttons' targets \<longleftrightarrow>
     (\<forall>t \<in> set targets. 0 \<le> t \<and> t < INT_MAX) \<and>
     (\<forall>b \<in> set buttons'. \<forall>idx \<in> set b. 0 \<le> idx)"

text \<open>
  The entries of a button that the solvers apply (\<open>counter_idx < n\<close>), and the machine of
  these buttons: a press sequence of the one is a press sequence of the other.
\<close>

definition effective :: "int list \<Rightarrow> int list \<Rightarrow> int list" where
  "effective targets button = filter (\<lambda>idx. idx < int (length targets)) button"

definition eff_machine :: "int list list \<Rightarrow> int list \<Rightarrow> machine" where
  "eff_machine buttons' targets = \<lparr>buttons = map (effective targets) buttons', target = targets\<rparr>"

text \<open>
  \<open>presses_reach buttons targets bs\<close>: pressing the buttons \<open>bs\<close> in turn, from all zeros,
  leaves the counters at the targets.  \<open>reachw k s\<close>: some \<open>k\<close> presses lead to the state
  \<open>s\<close>, which is within the targets.
\<close>

definition presses_reach :: "int list list \<Rightarrow> int list \<Rightarrow> int list list \<Rightarrow> bool" where
  "presses_reach buttons' targets bs \<longleftrightarrow>
     set bs \<subseteq> set buttons' \<and>
     run_presses (length targets) (map (effective targets) bs) = targets"

definition reachw :: "int list list \<Rightarrow> int list \<Rightarrow> nat \<Rightarrow> int list \<Rightarrow> bool" where
  "reachw buttons' targets k s \<longleftrightarrow>
     reach (eff_machine buttons' targets) k s \<and> within_targets targets s"

text \<open>
  The press counts carried by an item at cost \<open>p\<close>: one count per button, none negative
  or above the cap, and \<open>p\<close> in all.
\<close>

definition counts_ok :: "nat \<Rightarrow> int \<Rightarrow> int \<Rightarrow> int list \<Rightarrow> bool" where
  "counts_ok m cap p pc \<longleftrightarrow>
     length pc = m \<and> (\<forall>i < m. 0 \<le> pc ! i \<and> pc ! i \<le> cap) \<and> sum_list pc = p"

text \<open>
  The invariant shared by the two searches, on the set \<open>F\<close> of pending items
  \<open>(state, cost, press_counts)\<close> and the set \<open>S\<close> of states seen, at the level \<open>c\<close> and up to
  the horizon \<open>D\<close>: pending items are seen, cost \<open>c\<close> or \<open>c + 1\<close>, reached by as many
  presses as they cost, and no state within the horizon is reached by fewer; a seen
  state that is not pending is not the target and, if it lies below the horizon, has
  all its successors seen; all states within the level and the horizon are seen.
\<close>

definition search_inv ::
  "int list list \<Rightarrow> int list \<Rightarrow> int \<Rightarrow> nat \<Rightarrow> int \<Rightarrow> (int list \<times> int \<times> int list) set \<Rightarrow> int list set \<Rightarrow> bool" where
  "search_inv buttons' targets cap D c F S \<longleftrightarrow>
     0 \<le> c \<and>
     (\<forall>(s, p, pc) \<in> F.
        s \<in> S \<and> c \<le> p \<and> p \<le> c + 1 \<and> reachw buttons' targets (nat p) s \<and>
        counts_ok (length buttons') cap p pc \<and>
        (\<forall>k. reachw buttons' targets k s \<longrightarrow> nat p \<le> k \<or> D < k)) \<and>
     (\<forall>s \<in> S. \<exists>k. reachw buttons' targets k s) \<and>
     (\<forall>s \<in> S. s \<notin> fst ` F \<longrightarrow>
        s \<noteq> targets \<and>
        (\<forall>k < D. reachw buttons' targets k s \<longrightarrow>
           (\<forall>b \<in> set buttons'. \<forall>s'. apply_button targets b s = Inr (Some s') \<longrightarrow> s' \<in> S))) \<and>
     (\<forall>k s. reachw buttons' targets k s \<longrightarrow> int k \<le> c \<longrightarrow> k \<le> D \<longrightarrow> s \<in> S)"

text \<open>
  What the horizon stands for: the length of a shortest press sequence to the targets,
  within the cap; or nothing, when no press sequence leads to the targets.
\<close>

definition horizon :: "int list list \<Rightarrow> int list \<Rightarrow> int \<Rightarrow> nat \<Rightarrow> bool" where
  "horizon buttons' targets cap D \<longleftrightarrow>
     (reachw buttons' targets D targets \<and> (\<forall>k. reachw buttons' targets k targets \<longrightarrow> D \<le> k) \<and>
        int D \<le> cap) \<or>
     (D = 0 \<and> (\<forall>k. \<not> reachw buttons' targets k targets))"

text \<open>
  What one pass over the buttons \<open>bs\<close> (numbered from \<open>k\<close>) adds for the state \<open>cur\<close> at
  cost \<open>p\<close> with the seen set \<open>V\<close>: the new items are unseen successors of \<open>cur\<close> by a
  button below its cap, at cost \<open>p + 1\<close> and with that button counted once more; every
  successor by a button below its cap is seen afterwards.
\<close>

definition pass_adds ::
  "int list \<Rightarrow> int \<Rightarrow> int list list \<Rightarrow> nat \<Rightarrow> int list \<Rightarrow> int \<Rightarrow> int list \<Rightarrow> int list set \<Rightarrow>
   (int list \<times> int \<times> int list) list \<Rightarrow> bool" where
  "pass_adds targets cap bs k cur p pc V news \<longleftrightarrow>
     fst ` set news \<inter> V = {} \<and>
     (\<forall>(s', p', pc') \<in> set news.
        p' = p + 1 \<and>
        (\<exists>i < length bs. pc ! (k + i) < cap \<and> pc' = pc[k + i := pc ! (k + i) + 1] \<and>
           apply_button targets (bs ! i) cur = Inr (Some s'))) \<and>
     (\<forall>i < length bs. pc ! (k + i) < cap \<longrightarrow>
        (\<forall>s'. apply_button targets (bs ! i) cur = Inr (Some s') \<longrightarrow> s' \<in> V \<union> fst ` set news)) \<and>
     length news \<le> length bs"

text \<open>A queue item of the Dijkstra search as an item \<open>(state, cost, press_counts)\<close>.\<close>

definition pq_item_state :: "pq_item \<Rightarrow> int list \<times> int \<times> int list" where
  "pq_item_state x = (fst (snd x), fst x, snd (snd x))"

section \<open>Day 9: rectangles between red tiles\<close>



subsection \<open>Part 1 (\<open>Day9/solution.cpp\<close>, first program)\<close>








subsection \<open>Part 2, the fast check (\<open>Day9/solution2.cpp\<close>)\<close>



















subsection \<open>Part 2, the brute-force check (\<open>Day9/test_example.cpp\<close>)\<close>


definition x_intersect :: "int \<Rightarrow> int \<Rightarrow> int \<Rightarrow> int \<Rightarrow> int \<Rightarrow> rat" where
  "x_intersect x1 y1 x2 y2 testy =
     of_int x1 + of_int (x2 - x1) * of_int (testy - y1) / of_int (y2 - y1)"













section \<open>Notions of the claims on input and output\<close>







section \<open>Proofs: the token parsers\<close>

lemma isdigit_not_space: "isdigit c \<Longrightarrow> \<not> isspace c"
  by (auto simp: isdigit_def isspace_def)

lemma isdigit_not_sign: "isdigit c \<Longrightarrow> c \<noteq> CHR ''-'' \<and> c \<noteq> CHR ''+''"
  by (auto simp: isdigit_def)

lemma digit_val_nonneg: "isdigit c \<Longrightarrow> 0 \<le> digit_val c"
  by (auto simp: isdigit_def digit_val_def)

lemma foldl_decimal_nonneg:
  "\<forall>c \<in> set ds. isdigit c \<Longrightarrow> 0 \<le> a \<Longrightarrow> 0 \<le> foldl (\<lambda>a c. 10 * a + digit_val c) a ds"
  by (induction ds arbitrary: a) (auto simp: digit_val_nonneg)

lemma decimal_nonneg: "\<forall>c \<in> set ds. isdigit c \<Longrightarrow> 0 \<le> decimal ds"
  by (simp add: decimal_def foldl_decimal_nonneg)

lemma stoi_digits:
  assumes "ds \<noteq> []" and "\<forall>c \<in> set ds. isdigit c"
  shows "stoi ds = (if decimal ds \<le> INT_MAX then Inr (decimal ds) else Inl OutOfRange)"
proof -
  obtain c cs where ds: "ds = c # cs" using assms(1) by (cases ds) auto
  have c: "isdigit c" using assms(2) ds by simp
  have s1: "dropWhile isspace ds = ds" using c ds by (simp add: isdigit_not_space)
  have tk: "takeWhile isdigit ds = ds" using assms(2) by (simp add: takeWhile_eq_all_conv)
  have "0 \<le> decimal ds" using assms(2) by (rule decimal_nonneg)
  then have "\<not> decimal ds < INT_MIN" by (simp add: INT_MIN_def)
  moreover have "hd ds \<noteq> CHR ''-''" "hd ds \<noteq> CHR ''+''"
    using isdigit_not_sign[OF c] ds by simp_all
  ultimately show ?thesis
    using assms(1) unfolding stoi_def Let_def s1 by (simp add: tk)
qed

lemma digit_runs_digits_only:
  "ds \<noteq> [] \<Longrightarrow> \<forall>c \<in> set ds. isdigit c \<Longrightarrow> digit_runs ds = [ds]"
proof -
  assume a: "ds \<noteq> []" "\<forall>c \<in> set ds. isdigit c"
  then obtain d ds' where ds: "ds = d # ds'" by (cases ds) auto
  have tk: "takeWhile isdigit (d # ds') = d # ds'" using a ds by (simp add: takeWhile_eq_all_conv)
  have dw: "dropWhile isdigit ds' = []" using a ds by simp
  show ?thesis using a ds by (simp add: tk dw del: takeWhile.simps)
qed

lemma digit_runs_run_then_sep:
  assumes "ds \<noteq> []" and "\<forall>c \<in> set ds. isdigit c" and "\<not> isdigit c"
  shows "digit_runs (ds @ c # cs) = ds # digit_runs cs"
proof -
  obtain d ds' where ds: "ds = d # ds'" using assms(1) by (cases ds) auto
  have "takeWhile isdigit (ds @ c # cs) = ds"
    using assms by (simp add: takeWhile_append2)
  moreover have "dropWhile isdigit (ds' @ c # cs) = c # cs"
    using assms ds by (simp add: dropWhile_append2)
  ultimately show ?thesis using assms ds by simp
qed

lemma convert_runs_Cons:
  "convert_runs (r # rs) =
     (if decimal r \<le> INT_MAX then
        (case convert_runs rs of Inl e \<Rightarrow> Inl e | Inr vs \<Rightarrow> Inr (decimal r # vs))
      else Inl OutOfRange)"
  by (auto simp: convert_runs_def)

lemma parseButton_loop_runs:
  "\<forall>c \<in> set tmp. isdigit c \<Longrightarrow>
   parseButton_loop cs res tmp =
     (case convert_runs (digit_runs (tmp @ cs)) of Inl e \<Rightarrow> Inl e | Inr vs \<Rightarrow> Inr (res @ vs))"
proof (induction cs arbitrary: res tmp)
  case Nil
  then show ?case
    by (cases "tmp = []")
       (auto simp: stoi_digits digit_runs_digits_only convert_runs_def)
next
  case (Cons c cs)
  show ?case
  proof (cases "isdigit c")
    case True
    then have "\<forall>c \<in> set (tmp @ [c]). isdigit c" using Cons.prems by simp
    from Cons.IH[OF this] True show ?thesis by simp
  next
    case False
    show ?thesis
    proof (cases "tmp = []")
      case True
      then show ?thesis using False Cons.IH[of "[]" res] by simp
    next
      case ne: False
      have runs: "digit_runs (tmp @ c # cs) = tmp # digit_runs cs"
        using ne Cons.prems False by (rule digit_runs_run_then_sep)
      show ?thesis
        using False ne Cons.prems Cons.IH[of "[]"]
        by (auto simp: runs stoi_digits convert_runs_Cons split: sum.splits)
    qed
  qed
qed

lemma parseTarget_loop_eq_parseButton_loop:
  "parseTarget_loop cs res tmp = parseButton_loop cs res tmp"
  by (induction cs arbitrary: res tmp) (auto split: sum.splits)

text \<open>
  Claim C10, as the code has it.  \<open>parseButton\<close> and \<open>parseTarget\<close> are extensionally equal
  on every string.  When every maximal digit run of the string denotes a value of at most
  \<open>INT_MAX\<close>, both return the runs converted to integers, from left to right; otherwise
  both leave through the \<open>std::out_of_range\<close> exception of \<open>stoi\<close> and return no list.
\<close>

theorem parseButton_parseTarget_digit_runs:
  "parseButton s = parseTarget s \<and> parseButton s = convert_runs (digit_runs s)"
proof -
  have "parseButton s = convert_runs (digit_runs s)"
    using parseButton_loop_runs[of "[]" s "[]"]
    by (simp add: parseButton_def split: sum.splits)
  moreover have "parseTarget s = parseButton s"
    by (simp add: parseTarget_def parseButton_def parseTarget_loop_eq_parseButton_loop)
  ultimately show ?thesis by simp
qed

theorem parseButton_parseTarget_digit_runs_witness:
  "parseTarget ''{3,5,4,7}'' = Inr [3, 5, 4, 7] \<and>
   digit_runs ''{3,5,4,7}'' = [''3'', ''5'', ''4'', ''7'']"
proof -
  have runs: "digit_runs ''{3,5,4,7}'' = [''3'', ''5'', ''4'', ''7'']"
    by (simp add: isdigit_def)
  have conv: "convert_runs [''3'', ''5'', ''4'', ''7''] = Inr [3, 5, 4, 7]"
    by (simp add: convert_runs_def decimal_def digit_val_def INT_MAX_def)
  have "parseTarget ''{3,5,4,7}'' = convert_runs (digit_runs ''{3,5,4,7}'')"
    using parseButton_parseTarget_digit_runs[of "''{3,5,4,7}''"] by metis
  then show ?thesis using runs conv by simp
qed

text \<open>
  The claim as written (both always return a list) fails on a run that does not fit an
  \<open>int\<close>: no list is returned.
\<close>

theorem parseButton_out_of_range_counterexample:
  "parseButton ''2147483648'' = Inl OutOfRange \<and> parseTarget ''2147483648'' = Inl OutOfRange"
  by (simp add: parseButton_def parseTarget_def stoi_def isdigit_def isspace_def decimal_def
      digit_val_def INT_MAX_def INT_MIN_def)

section \<open>Proofs: Day 7\<close>

text \<open>
  Claim C5.  The row-by-row beam simulation, started at the \<open>S\<close> column of the first row of
  the documented example grid, ends with exactly 21 splits.
\<close>

theorem example_grid_21_splits:
  "count_splits example_grid = Some 21"
  by (simp add: count_splits_def example_grid_def)

section \<open>Proofs: the breadth-first search of \<open>minPresses\<close>\<close>

subsection \<open>Presses\<close>

lemma length_add_one [simp]: "length (add_one s idx) = length s"
  by (simp add: add_one_def)

lemma length_press_effect [simp]: "length (press_effect btn s) = length s"
  unfolding press_effect_def by (induction btn arbitrary: s) auto

lemma add_one_mono: "i < length s \<Longrightarrow> s ! i \<le> add_one s idx ! i"
  by (cases "i = nat idx") (simp_all add: add_one_def)

lemma press_effect_Cons: "press_effect (idx # btn) s = press_effect btn (add_one s idx)"
  by (simp add: press_effect_def)

lemma press_effect_mono: "i < length s \<Longrightarrow> s ! i \<le> press_effect btn s ! i"
proof (induction btn arbitrary: s)
  case Nil
  then show ?case by (simp add: press_effect_def)
next
  case (Cons idx btn)
  have "s ! i \<le> add_one s idx ! i" using Cons.prems by (rule add_one_mono)
  also have "\<dots> \<le> press_effect btn (add_one s idx) ! i"
    using Cons.IH[of "add_one s idx"] Cons.prems by simp
  finally show ?case by (simp add: press_effect_Cons)
qed

lemma press_ok:
  assumes "\<forall>idx \<in> set btn. 0 \<le> idx \<and> idx < int (length s)"
    and "\<forall>c \<in> set (press_effect btn s). c \<le> INT_MAX"
  shows "press btn s = Inr (press_effect btn s)"
  using assms
proof (induction btn arbitrary: s)
  case Nil
  then show ?case by (simp add: press_effect_def)
next
  case (Cons idx btn)
  have idx: "0 \<le> idx" "idx < int (length s)" using Cons.prems(1) by auto
  then have n: "nat idx < length s" by simp
  have "add_one s idx ! nat idx \<le> press_effect btn (add_one s idx) ! nat idx"
    using n by (intro press_effect_mono) simp
  moreover have "press_effect btn (add_one s idx) ! nat idx \<le> INT_MAX"
    using Cons.prems(2) n by (simp add: press_effect_Cons)
  moreover have "add_one s idx ! nat idx = s ! nat idx + 1"
    using n by (simp add: add_one_def)
  ultimately have "s ! nat idx \<noteq> INT_MAX" by simp
  moreover have "press btn (add_one s idx) = Inr (press_effect btn (add_one s idx))"
    using Cons.prems by (intro Cons.IH) (auto simp: press_effect_Cons)
  ultimately show ?case using idx by (simp add: press_effect_Cons add_one_def)
qed

subsection \<open>Reachability\<close>

lemma run_presses_snoc:
  "run_presses n (bs @ [b]) = press_effect b (run_presses n bs)"
  by (simp add: run_presses_def)

lemma length_run_presses [simp]: "length (run_presses n bs) = n"
  by (induction bs rule: rev_induct) (simp_all add: run_presses_def)

lemma reach_0: "reach m 0 s \<longleftrightarrow> s = replicate (length (target m)) 0"
  by (auto simp: reach_def run_presses_def)

lemma reach_Suc:
  "reach m (Suc k) s \<longleftrightarrow> (\<exists>s' b. reach m k s' \<and> b \<in> set (buttons m) \<and> s = press_effect b s')"
proof
  assume "reach m (Suc k) s"
  then obtain bs where bs: "set bs \<subseteq> set (buttons m)" "length bs = Suc k"
    "run_presses (length (target m)) bs = s" by (auto simp: reach_def)
  then obtain bs' b where "bs = bs' @ [b]" by (cases bs rule: rev_cases) auto
  with bs show "\<exists>s' b. reach m k s' \<and> b \<in> set (buttons m) \<and> s = press_effect b s'"
    by (auto simp: reach_def run_presses_snoc)
next
  assume "\<exists>s' b. reach m k s' \<and> b \<in> set (buttons m) \<and> s = press_effect b s'"
  then obtain s' b bs where "set bs \<subseteq> set (buttons m)" "length bs = k"
    "run_presses (length (target m)) bs = s'" "b \<in> set (buttons m)" "s = press_effect b s'"
    by (auto simp: reach_def)
  then have "set (bs @ [b]) \<subseteq> set (buttons m) \<and> length (bs @ [b]) = Suc k \<and>
     run_presses (length (target m)) (bs @ [b]) = s"
    by (simp add: run_presses_snoc)
  then show "reach m (Suc k) s" unfolding reach_def by blast
qed

lemma reach_length: "reach m k s \<Longrightarrow> length s = length (target m)"
  by (auto simp: reach_def)

lemma finite_reach_upto: "finite {s. \<exists>k \<le> d. reach m k s}"
proof -
  have "{s. \<exists>k \<le> d. reach m k s} \<subseteq>
     run_presses (length (target m)) ` {bs. set bs \<subseteq> set (buttons m) \<and> length bs \<le> d}"
    by (auto simp: reach_def)
  moreover have "finite {bs. set bs \<subseteq> set (buttons m) \<and> length bs \<le> d}"
    by (rule finite_lists_length_le) simp
  ultimately show ?thesis by (meson finite_imageI finite_subset)
qed

subsection \<open>The loop over the buttons\<close>

lemma expand_spec:
  assumes "\<forall>b \<in> set btns. press b cur = Inr (press_effect b cur)"
    and "p < INT_MAX"
    and "\<forall>b \<in> set btns. \<forall>v. distm (press_effect b cur) = Some v \<longrightarrow> v \<le> p + 1"
  shows "\<exists>news distm''.
     expand btns cur p (q, distm) = Inr (q @ map (\<lambda>s. (s, p + 1)) news, distm'') \<and>
     set news = (\<lambda>b. press_effect b cur) ` set btns - dom distm \<and>
     length news \<le> length btns \<and>
     (\<forall>s. distm'' s = (if s \<in> dom distm then distm s
                        else if s \<in> set news then Some (p + 1) else None))"
  using assms
proof (induction btns arbitrary: q distm)
  case Nil
  then show ?case by (auto simp: domIff)
next
  case (Cons btn btns)
  let ?next = "press_effect btn cur"
  have pr: "press btn cur = Inr ?next" using Cons.prems(1) by simp
  have p1: "\<forall>b \<in> set btns. press b cur = Inr (press_effect b cur)" using Cons.prems(1) by simp
  show ?case
  proof (cases "distm ?next")
    case None
    let ?q1 = "q @ [(?next, p + 1)]" and ?d1 = "distm(?next \<mapsto> p + 1)"
    have "\<forall>b \<in> set btns. \<forall>v. ?d1 (press_effect b cur) = Some v \<longrightarrow> v \<le> p + 1"
      using Cons.prems(3) by auto
    from Cons.IH[OF p1 Cons.prems(2) this, of ?q1]
    obtain news d2 where
      ex: "expand btns cur p (?q1, ?d1) = Inr (?q1 @ map (\<lambda>s. (s, p + 1)) news, d2)"
      and ns: "set news = (\<lambda>b. press_effect b cur) ` set btns - dom ?d1"
      and ln: "length news \<le> length btns"
      and d2: "\<forall>s. d2 s = (if s \<in> dom ?d1 then ?d1 s
                        else if s \<in> set news then Some (p + 1) else None)"
      by blast
    have "expand (btn # btns) cur p (q, distm) =
        Inr (q @ map (\<lambda>s. (s, p + 1)) (?next # news), d2)"
      using pr None Cons.prems(2) ex by simp
    moreover have "set (?next # news) = (\<lambda>b. press_effect b cur) ` set (btn # btns) - dom distm"
      using ns None by (auto simp: domIff)
    moreover have "length (?next # news) \<le> length (btn # btns)" using ln by simp
    moreover have "\<forall>s. d2 s = (if s \<in> dom distm then distm s
                        else if s \<in> set (?next # news) then Some (p + 1) else None)"
      using d2 None by (auto simp: domIff)
    ultimately show ?thesis by blast
  next
    case (Some v)
    then have v: "v \<le> p + 1" using Cons.prems(3) by simp
    have "\<forall>b \<in> set btns. \<forall>v. distm (press_effect b cur) = Some v \<longrightarrow> v \<le> p + 1"
      using Cons.prems(3) by auto
    from Cons.IH[OF p1 Cons.prems(2) this, of q]
    obtain news d2 where
      ex: "expand btns cur p (q, distm) = Inr (q @ map (\<lambda>s. (s, p + 1)) news, d2)"
      and ns: "set news = (\<lambda>b. press_effect b cur) ` set btns - dom distm"
      and ln: "length news \<le> length btns"
      and d2: "\<forall>s. d2 s = (if s \<in> dom distm then distm s
                        else if s \<in> set news then Some (p + 1) else None)"
      by blast
    have "expand (btn # btns) cur p (q, distm) = Inr (q @ map (\<lambda>s. (s, p + 1)) news, d2)"
      using pr Some v Cons.prems(2) ex by simp
    moreover have "set news = (\<lambda>b. press_effect b cur) ` set (btn # btns) - dom distm"
      using ns Some by (auto simp: domIff)
    moreover have "length news \<le> length (btn # btns)" using ln by simp
    ultimately show ?thesis using d2 by blast
  qed
qed


subsection \<open>The invariant is kept by an iteration\<close>

lemma sorted_hd_le: "sorted xs \<Longrightarrow> x \<in> set xs \<Longrightarrow> hd xs \<le> x"
  by (cases xs) auto

lemma bfs_inv_step:
  assumes inv: "bfs_inv m ((cur, p) # q') distm"
    and nt: "cur \<noteq> target m"
    and news: "set news = (\<lambda>b. press_effect b cur) ` set (buttons m) - dom distm"
    and d'': "\<forall>s. distm'' s = (if s \<in> dom distm then distm s
                        else if s \<in> set news then Some (p + 1) else None)"
  shows "bfs_inv m (q' @ map (\<lambda>s. (s, p + 1)) news) distm''"
proof -
  let ?q'' = "q' @ map (\<lambda>s. (s, p + 1)) news"
  note I = inv[unfolded bfs_inv_def]
  have c1: "\<forall>(s, pp) \<in> set ((cur, p) # q'). distm s = Some pp" using I by (elim conjE)
  have c2: "\<forall>s pp. distm s = Some pp \<longrightarrow>
        0 \<le> pp \<and> reach m (nat pp) s \<and> (\<forall>k. reach m k s \<longrightarrow> nat pp \<le> k)"
    using I by (elim conjE)
  have c3: "sorted (map snd ((cur, p) # q'))" using I by (elim conjE)
  have c3b: "\<forall>(s, pp) \<in> set ((cur, p) # q'). pp \<le> snd (hd ((cur, p) # q')) + 1"
    using I by (elim conjE)
  have c4: "\<forall>s \<in> dom distm. s \<notin> fst ` set ((cur, p) # q') \<longrightarrow>
        s \<noteq> target m \<and> (\<forall>b \<in> set (buttons m). press_effect b s \<in> dom distm)"
    using I by (elim conjE)
  have c5: "(cur, p) # q' \<noteq> [] \<longrightarrow>
        (\<forall>k s. reach m k s \<longrightarrow> int k \<le> snd (hd ((cur, p) # q')) \<longrightarrow> s \<in> dom distm)"
    using I by (elim conjE)
  have i6: "replicate (length (target m)) 0 \<in> dom distm" using I by (elim conjE)
  have i1: "distm s = Some pp" if "(s, pp) \<in> set ((cur, p) # q')" for s pp
    using c1 that by fast
  have i2: "0 \<le> pp \<and> reach m (nat pp) s \<and> (\<forall>k. reach m k s \<longrightarrow> nat pp \<le> k)"
    if "distm s = Some pp" for s pp
    using c2 that by simp
  have i3: "sorted (p # map snd q')" using c3 by simp
  have i3b: "pp \<le> p + 1" if "(s, pp) \<in> set q'" for s pp
    using c3b that by fastforce
  have i4: "s \<noteq> target m \<and> (\<forall>b \<in> set (buttons m). press_effect b s \<in> dom distm)"
    if "s \<in> dom distm" "s \<noteq> cur" "s \<notin> fst ` set q'" for s
    using c4 that by simp
  have i5: "s \<in> dom distm" if "reach m k s" "int k \<le> p" for k s
    using c5 that by simp
  have dcur: "distm cur = Some p" using i1 by simp
  have p0: "0 \<le> p" and rcur: "reach m (nat p) cur" using i2[OF dcur] by simp_all
  have old: "distm'' s = distm s" if "s \<in> dom distm" for s using d'' that by simp
  have new: "distm'' s = Some (p + 1)" if "s \<in> set news" for s using d'' that news by simp
  have dom'': "dom distm'' = dom distm \<union> set news"
  proof (intro set_eqI)
    fix s show "s \<in> dom distm'' \<longleftrightarrow> s \<in> dom distm \<union> set news"
      using d''[rule_format, of s] by (auto simp: domIff)
  qed
  have lo: "p \<le> pp" if "(s, pp) \<in> set q'" for s pp
    using i3 that by force
  have lo'': "p \<le> pp" and hi'': "pp \<le> p + 1" if "(s, pp) \<in> set ?q''" for s pp
    using that lo i3b by auto
  have hd'': "(fst (hd ?q''), snd (hd ?q'')) \<in> set ?q''" if "?q'' \<noteq> []"
    using that hd_in_set[of ?q''] by simp
  have n1: "\<forall>(s, pp) \<in> set ?q''. distm'' s = Some pp"
  proof (clarify)
    fix s pp assume "(s, pp) \<in> set ?q''"
    then consider "(s, pp) \<in> set q'" | "s \<in> set news" "pp = p + 1" by auto
    then show "distm'' s = Some pp"
    proof cases
      case 1
      then have "distm s = Some pp" using i1 by simp
      then show ?thesis using old[of s] by (simp add: domIff)
    next
      case 2
      then show ?thesis using new by simp
    qed
  qed
  have n2: "\<forall>s pp. distm'' s = Some pp \<longrightarrow>
        0 \<le> pp \<and> reach m (nat pp) s \<and> (\<forall>k. reach m k s \<longrightarrow> nat pp \<le> k)"
  proof (intro allI impI)
    fix s pp assume a: "distm'' s = Some pp"
    show "0 \<le> pp \<and> reach m (nat pp) s \<and> (\<forall>k. reach m k s \<longrightarrow> nat pp \<le> k)"
    proof (cases "s \<in> dom distm")
      case True
      then show ?thesis using a old i2 by simp
    next
      case False
      then have sn: "s \<in> set news" and pp: "pp = p + 1"
        using a d'' by (auto split: if_splits)
      then obtain b where b: "b \<in> set (buttons m)" "s = press_effect b cur"
        using news by auto
      have "reach m (Suc (nat p)) s" using b rcur reach_Suc by blast
      moreover have "nat pp = Suc (nat p)" using pp p0 by simp
      moreover have "nat pp \<le> k" if "reach m k s" for k
      proof (rule ccontr)
        assume "\<not> nat pp \<le> k"
        then have "int k \<le> p" using pp p0 by simp
        then show False using i5[OF that] False by simp
      qed
      ultimately show ?thesis using pp p0 by simp
    qed
  qed
  have n3: "sorted (map snd ?q'')"
    using i3 i3b by (auto simp: sorted_append comp_def map_replicate_const)
  have n3b: "\<forall>(s, pp) \<in> set ?q''. pp \<le> snd (hd ?q'') + 1"
  proof (clarify)
    fix s pp assume a: "(s, pp) \<in> set ?q''"
    then have "?q'' \<noteq> []" by auto
    from lo''[OF hd''[OF this]] hi''[OF a] show "pp \<le> snd (hd ?q'') + 1" by simp
  qed
  have n4: "\<forall>s \<in> dom distm''. s \<notin> fst ` set ?q'' \<longrightarrow>
        s \<noteq> target m \<and> (\<forall>b \<in> set (buttons m). press_effect b s \<in> dom distm'')"
  proof (intro ballI impI)
    fix s assume a: "s \<in> dom distm''" "s \<notin> fst ` set ?q''"
    then have sn: "s \<notin> set news" and sq: "s \<notin> fst ` set q'" by (auto simp: image_Un image_image)
    then have sd: "s \<in> dom distm" using a dom'' by simp
    show "s \<noteq> target m \<and> (\<forall>b \<in> set (buttons m). press_effect b s \<in> dom distm'')"
    proof (cases "s = cur")
      case True
      then show ?thesis using nt news dom'' by auto
    next
      case False
      then show ?thesis using i4[OF sd False sq] dom'' by simp
    qed
  qed
  have n5: "?q'' \<noteq> [] \<longrightarrow>
        (\<forall>k s. reach m k s \<longrightarrow> int k \<le> snd (hd ?q'') \<longrightarrow> s \<in> dom distm'')"
  proof (intro impI allI)
    fix k s assume ne: "?q'' \<noteq> []" and r: "reach m k s" and k: "int k \<le> snd (hd ?q'')"
    have hhi: "snd (hd ?q'') \<le> p + 1" using hi''[OF hd''[OF ne]] .
    show "s \<in> dom distm''"
    proof (cases "int k \<le> p")
      case True
      then show ?thesis using i5[OF r] dom'' by simp
    next
      case False
      then have kp: "int k = p + 1" and hp: "snd (hd ?q'') = p + 1" using k hhi by simp_all
      then obtain k' where k': "k = Suc k'" "int k' = p" using p0 by (cases k) auto
      then obtain s' b where s': "reach m k' s'" "b \<in> set (buttons m)" "s = press_effect b s'"
        using r reach_Suc by blast
      have s'd: "s' \<in> dom distm" using i5[OF s'(1)] k' by simp
      then obtain ps where ps: "distm s' = Some ps" by (auto simp: domIff)
      have "nat ps \<le> k'" using i2[OF ps] s'(1) by simp
      then have psp: "ps \<le> p" using k' by simp
      have "s' \<notin> fst ` set ?q''"
      proof
        assume "s' \<in> fst ` set ?q''"
        then obtain pp where pp: "(s', pp) \<in> set ?q''" by force
        then have "distm'' s' = Some pp" using n1 by blast
        then have "pp = ps" using old[OF s'd] ps by simp
        moreover have "snd (hd ?q'') \<le> pp"
        proof -
          have "pp \<in> set (map snd ?q'')" using pp by force
          then have "hd (map snd ?q'') \<le> pp" by (rule sorted_hd_le[OF n3])
          then show ?thesis using hd_map[OF ne, of snd] by simp
        qed
        ultimately show False using psp hp by simp
      qed
      moreover have "s' \<in> dom distm''" using s'd dom'' by simp
      ultimately show ?thesis using n4 s' by blast
    qed
  qed
  have n6: "replicate (length (target m)) 0 \<in> dom distm''" using i6 dom'' by simp
  show ?thesis unfolding bfs_inv_def by (intro conjI n1 n2 n3 n3b n4 n5 n6)
qed

lemma bfs_inv_init:
  "bfs_inv m [(replicate (length (target m)) 0, 0)] [replicate (length (target m)) 0 \<mapsto> 0]"
  unfolding bfs_inv_def by (auto simp: reach_0)


subsection \<open>The search returns the shortest number of presses\<close>

lemma bfs_inv_queue_nonempty:
  assumes inv: "bfs_inv m q distm" and reachT: "reach m d (target m)"
  shows "q \<noteq> []"
proof
  assume e: "q = []"
  note I = inv[unfolded bfs_inv_def]
  have c4: "\<forall>s \<in> dom distm. s \<notin> fst ` set q \<longrightarrow>
        s \<noteq> target m \<and> (\<forall>b \<in> set (buttons m). press_effect b s \<in> dom distm)"
    using I by (elim conjE)
  have i6: "replicate (length (target m)) 0 \<in> dom distm" using I by (elim conjE)
  have closed: "s \<noteq> target m \<and> (\<forall>b \<in> set (buttons m). press_effect b s \<in> dom distm)"
    if "s \<in> dom distm" for s
    using c4 that e by simp
  have "s \<in> dom distm" if "reach m k s" for k s
    using that
  proof (induction k arbitrary: s)
    case 0
    then show ?case using i6 by (simp add: reach_0)
  next
    case (Suc k)
    then obtain s' b where "reach m k s'" "b \<in> set (buttons m)" "s = press_effect b s'"
      using reach_Suc by blast
    then show ?case using Suc.IH closed by blast
  qed
  then have "target m \<in> dom distm" using reachT by blast
  then show False using closed by blast
qed

lemma minPresses_loop_correct:
  assumes valid: "indices_in_range m" and fits: "within_int m (Suc d)"
    and reachT: "reach m d (target m)" and minT: "\<And>k. reach m k (target m) \<Longrightarrow> d \<le> k"
    and inv: "bfs_inv m q distm"
  shows "minPresses_loop m (q, distm) = Some (Inr (int d))"
  using inv
proof (induction "card ({s. \<exists>k \<le> Suc d. reach m k s} - dom distm) * Suc (length (buttons m))
    + length q" arbitrary: q distm rule: less_induct)
  case less
  let ?U = "{s. \<exists>k \<le> Suc d. reach m k s}"
  let ?L = "length (buttons m)"
  have finU: "finite ?U" by (rule finite_reach_upto)
  note inv = less.prems
  have "q \<noteq> []" using inv reachT by (rule bfs_inv_queue_nonempty)
  then obtain cur p q' where q: "q = (cur, p) # q'" by (cases q) auto
  note I = inv[unfolded bfs_inv_def q]
  have c1: "\<forall>(s, pp) \<in> set ((cur, p) # q'). distm s = Some pp" using I by (elim conjE)
  have c2: "\<forall>s pp. distm s = Some pp \<longrightarrow>
        0 \<le> pp \<and> reach m (nat pp) s \<and> (\<forall>k. reach m k s \<longrightarrow> nat pp \<le> k)"
    using I by (elim conjE)
  have c3: "sorted (map snd ((cur, p) # q'))" using I by (elim conjE)
  have c4: "\<forall>s \<in> dom distm. s \<notin> fst ` set ((cur, p) # q') \<longrightarrow>
        s \<noteq> target m \<and> (\<forall>b \<in> set (buttons m). press_effect b s \<in> dom distm)"
    using I by (elim conjE)
  have c5: "(cur, p) # q' \<noteq> [] \<longrightarrow>
        (\<forall>k s. reach m k s \<longrightarrow> int k \<le> snd (hd ((cur, p) # q')) \<longrightarrow> s \<in> dom distm)"
    using I by (elim conjE)
  have i2: "0 \<le> pp \<and> reach m (nat pp) s \<and> (\<forall>k. reach m k s \<longrightarrow> nat pp \<le> k)"
    if "distm s = Some pp" for s pp
    using c2 that by simp
  have i5: "s \<in> dom distm" if "reach m k s" "int k \<le> p" for k s
    using c5 that by simp
  have dcur: "distm cur = Some p" using c1 by simp
  have p0: "0 \<le> p" and rcur: "reach m (nat p) cur"
    and mcur: "\<And>k. reach m k cur \<Longrightarrow> nat p \<le> k"
    using i2[OF dcur] by simp_all
  have pd: "nat p \<le> d"
  proof (rule ccontr)
    assume "\<not> nat p \<le> d"
    then have dp: "int d < p" by simp
    then have "target m \<in> dom distm" using i5[OF reachT] by simp
    then obtain v where v: "distm (target m) = Some v" by (auto simp: domIff)
    then have vd: "nat v \<le> d" and v0: "0 \<le> v" using i2[OF v] reachT by simp_all
    have "target m \<notin> fst ` set ((cur, p) # q')"
    proof
      assume "target m \<in> fst ` set ((cur, p) # q')"
      then obtain pp where pp: "(target m, pp) \<in> set ((cur, p) # q')" by force
      then have "distm (target m) = Some pp" using c1 by blast
      then have "pp = v" using v by simp
      moreover have "p \<le> pp" using c3 pp by force
      ultimately show False using vd v0 dp by simp
    qed
    then show False using c4 \<open>target m \<in> dom distm\<close> by blast
  qed
  show ?case
  proof (cases "cur = target m")
    case True
    have "d \<le> nat p" using minT rcur True by simp
    then have "p = int d" using pd p0 by simp
    moreover have "minPresses_loop m (q, distm) = Some (Inr p)"
      by (subst minPresses_loop.simps) (simp add: q True)
    ultimately show ?thesis by simp
  next
    case False
    have len: "length cur = length (target m)" using rcur by (rule reach_length)
    have succ_reach: "reach m (Suc (nat p)) (press_effect b cur)" if "b \<in> set (buttons m)" for b
      using rcur that reach_Suc by blast
    have press_fine: "\<forall>b \<in> set (buttons m). press b cur = Inr (press_effect b cur)"
    proof
      fix b assume b: "b \<in> set (buttons m)"
      have "\<forall>idx \<in> set b. 0 \<le> idx \<and> idx < int (length cur)"
        using valid b len by (simp add: indices_in_range_def)
      moreover have "\<forall>c \<in> set (press_effect b cur). c \<le> INT_MAX"
      proof -
        obtain bs where bs: "set bs \<subseteq> set (buttons m)" "length bs = Suc (nat p)"
          "run_presses (length (target m)) bs = press_effect b cur"
          using succ_reach[OF b] by (auto simp: reach_def)
        then have "length bs \<le> Suc d" using pd by simp
        then show ?thesis using fits bs unfolding within_int_def by metis
      qed
      ultimately show "press b cur = Inr (press_effect b cur)" by (rule press_ok)
    qed
    have plt: "p < INT_MAX"
    proof -
      have "int (Suc d) \<le> INT_MAX" using fits by (simp add: within_int_def)
      moreover have "p \<le> int d" using pd p0 by simp
      ultimately show ?thesis by simp
    qed
    have dv: "\<forall>b \<in> set (buttons m). \<forall>v. distm (press_effect b cur) = Some v \<longrightarrow> v \<le> p + 1"
    proof (intro ballI allI impI)
      fix b v assume b: "b \<in> set (buttons m)" and v: "distm (press_effect b cur) = Some v"
      have "nat v \<le> Suc (nat p)" using i2[OF v] succ_reach[OF b] by simp
      then show "v \<le> p + 1" using p0 by simp
    qed
    from expand_spec[OF press_fine plt dv, of q']
    obtain news distm'' where
      ex: "expand (buttons m) cur p (q', distm) = Inr (q' @ map (\<lambda>s. (s, p + 1)) news, distm'')"
      and ns: "set news = (\<lambda>b. press_effect b cur) ` set (buttons m) - dom distm"
      and ln: "length news \<le> ?L"
      and d'': "\<forall>s. distm'' s = (if s \<in> dom distm then distm s
                        else if s \<in> set news then Some (p + 1) else None)"
      by blast
    let ?q'' = "q' @ map (\<lambda>s. (s, p + 1)) news"
    have inv'': "bfs_inv m ?q'' distm''"
      using inv[unfolded q] False ns d'' by (rule bfs_inv_step)
    have step: "minPresses_loop m (q, distm) = minPresses_loop m (?q'', distm'')"
      by (subst minPresses_loop.simps) (simp add: q False ex)
    have dom'': "dom distm'' = dom distm \<union> set news"
    proof (intro set_eqI)
      fix s show "s \<in> dom distm'' \<longleftrightarrow> s \<in> dom distm \<union> set news"
        using d''[rule_format, of s] by (auto simp: domIff)
    qed
    have newsU: "set news \<subseteq> ?U - dom distm"
    proof
      fix s assume s: "s \<in> set news"
      then obtain b where "b \<in> set (buttons m)" "s = press_effect b cur" using ns by auto
      then have "reach m (Suc (nat p)) s" using succ_reach by simp
      then have "s \<in> ?U" using pd by auto
      then show "s \<in> ?U - dom distm" using s ns by simp
    qed
    have less: "card (?U - dom distm'') * Suc ?L + length ?q''
        < card (?U - dom distm) * Suc ?L + length q"
    proof (cases "news = []")
      case True
      then show ?thesis using dom'' q by simp
    next
      case ne: False
      then obtain s where s: "s \<in> set news" by (cases news) auto
      have "s \<in> ?U - dom distm" "s \<notin> ?U - dom distm''" using dom'' newsU s by auto
      moreover have "?U - dom distm'' \<subseteq> ?U - dom distm" using dom'' by auto
      ultimately have "?U - dom distm'' \<subset> ?U - dom distm" by blast
      then have "card (?U - dom distm'') < card (?U - dom distm)"
        using finU by (intro psubset_card_mono) auto
      then have "Suc (card (?U - dom distm'')) * Suc ?L \<le> card (?U - dom distm) * Suc ?L"
        by (intro mult_le_mono1) simp
      then show ?thesis using ln q by simp
    qed
    show ?thesis using less.hyps[OF less inv''] step by simp
  qed
qed

subsection \<open>Bounds on the counters\<close>

lemma add_one_bound:
  assumes "\<forall>c \<in> set s. c \<le> M"
  shows "\<forall>c \<in> set (add_one s idx). c \<le> M + 1"
proof
  fix c assume "c \<in> set (add_one s idx)"
  then obtain i where i: "i < length s" "c = add_one s idx ! i"
    by (auto simp: in_set_conv_nth)
  have "s ! i \<le> M" using assms i by simp
  then show "c \<le> M + 1" using i by (cases "i = nat idx") (simp_all add: add_one_def)
qed

lemma press_effect_bound:
  "\<forall>c \<in> set s. c \<le> M \<Longrightarrow> \<forall>c \<in> set (press_effect btn s). c \<le> M + int (length btn)"
proof (induction btn arbitrary: s M)
  case Nil
  then show ?case by (simp add: press_effect_def)
next
  case (Cons idx btn)
  have "M + 1 + int (length btn) = M + int (length (idx # btn))" by simp
  with Cons.IH[OF add_one_bound[OF Cons.prems], of idx]
  show ?case by (simp only: press_effect_Cons)
qed

lemma run_presses_bound:
  "\<forall>c \<in> set (run_presses n bs). c \<le> int (sum_list (map length bs))"
proof (induction bs rule: rev_induct)
  case Nil
  then show ?case by (simp add: run_presses_def)
next
  case (snoc b bs)
  from press_effect_bound[OF snoc.IH, of b]
  show ?case by (simp add: run_presses_snoc)
qed

lemma sum_list_length_le:
  "\<forall>b \<in> set bs. length b \<le> L \<Longrightarrow> sum_list (map length bs) \<le> L * length bs"
  by (induction bs) auto

lemma within_int_by_length:
  assumes "\<forall>b \<in> set (buttons m). length b \<le> L" and "int L * int k \<le> INT_MAX" and "int k \<le> INT_MAX"
  shows "within_int m k"
  unfolding within_int_def
proof (intro conjI allI impI)
  show "int k \<le> INT_MAX" by fact
next
  fix bs assume bs: "set bs \<subseteq> set (buttons m)" "length bs \<le> k"
  then have "sum_list (map length bs) \<le> L * length bs"
    using assms(1) by (intro sum_list_length_le) auto
  also have "\<dots> \<le> L * k" using bs by simp
  finally have "int (sum_list (map length bs)) \<le> int L * int k"
    by (metis of_nat_mult of_nat_le_iff)
  then show "\<forall>c \<in> set (run_presses (length (target m)) bs). c \<le> INT_MAX"
    using run_presses_bound[of "length (target m)" bs] assms(2) by fastforce
qed

subsection \<open>Counting presses\<close>

lemma add_one_nth:
  "0 \<le> idx \<Longrightarrow> idx < int (length s) \<Longrightarrow> i < length s \<Longrightarrow>
   add_one s idx ! i = s ! i + (if idx = int i then 1 else 0)"
  by (auto simp: add_one_def nth_list_update)

lemma press_effect_nth:
  "\<forall>idx \<in> set btn. 0 \<le> idx \<and> idx < int (length s) \<Longrightarrow> i < length s \<Longrightarrow>
   press_effect btn s ! i = s ! i + int (count_list btn (int i))"
proof (induction btn arbitrary: s)
  case Nil
  then show ?case by (simp add: press_effect_def)
next
  case (Cons idx btn)
  then show ?case by (simp add: press_effect_Cons add_one_nth)
qed

lemma run_presses_nth:
  assumes "\<forall>b \<in> set bs. \<forall>idx \<in> set b. 0 \<le> idx \<and> idx < int n" and "i < n"
  shows "run_presses n bs ! i = (\<Sum>b\<leftarrow>bs. int (count_list b (int i)))"
  using assms(1)
proof (induction bs rule: rev_induct)
  case Nil
  then show ?case using assms(2) by (simp add: run_presses_def)
next
  case (snoc b bs)
  then show ?case using assms(2) by (simp add: run_presses_snoc press_effect_nth)
qed

lemma sum_list_le_length:
  "\<forall>b \<in> set bs. f b \<le> (1::int) \<Longrightarrow> (\<Sum>b\<leftarrow>bs. f b) \<le> int (length bs)"
  by (induction bs) auto

text \<open>The main theorem in the form used below.\<close>

lemma minPresses_shortest_aux:
  assumes valid: "indices_in_range m"
    and bs: "set bs \<subseteq> set (buttons m)" "run_presses (length (target m)) bs = target m"
    and short: "\<And>bs'. set bs' \<subseteq> set (buttons m) \<Longrightarrow>
                  run_presses (length (target m)) bs' = target m \<Longrightarrow> length bs \<le> length bs'"
    and fits: "within_int m (Suc (length bs))"
  shows "minPresses m = Some (Inr (int (length bs)))"
proof -
  have r: "reach m (length bs) (target m)" using bs unfolding reach_def by blast
  have mn: "length bs \<le> k" if "reach m k (target m)" for k
    using that short unfolding reach_def by blast
  show ?thesis
    unfolding minPresses_def Let_def
    by (rule minPresses_loop_correct[OF valid fits r mn bfs_inv_init])
qed

subsection \<open>The documented example\<close>

lemma presses_lower_bound:
  assumes valid: "indices_in_range m"
    and bs: "set bs \<subseteq> set (buttons m)"
    and i: "i < length (target m)" and j: "j < length (target m)"
    and one: "\<forall>b \<in> set (buttons m). int (count_list b (int i)) + int (count_list b (int j)) \<le> 1"
  shows "run_presses (length (target m)) bs ! i + run_presses (length (target m)) bs ! j
           \<le> int (length bs)"
proof -
  have v: "\<forall>b \<in> set bs. \<forall>idx \<in> set b. 0 \<le> idx \<and> idx < int (length (target m))"
    using valid bs unfolding indices_in_range_def by blast
  have "run_presses (length (target m)) bs ! i + run_presses (length (target m)) bs ! j
      = (\<Sum>b\<leftarrow>bs. int (count_list b (int i)) + int (count_list b (int j)))"
    by (simp add: run_presses_nth[OF v i] run_presses_nth[OF v j] sum_list_addf)
  also have "\<dots> \<le> int (length bs)"
    using one bs by (intro sum_list_le_length) blast
  finally show ?thesis .
qed

lemma presses_lower_bound1:
  assumes valid: "indices_in_range m"
    and bs: "set bs \<subseteq> set (buttons m)"
    and i: "i < length (target m)"
    and one: "\<forall>b \<in> set (buttons m). int (count_list b (int i)) \<le> 1"
  shows "run_presses (length (target m)) bs ! i \<le> int (length bs)"
proof -
  have v: "\<forall>b \<in> set bs. \<forall>idx \<in> set b. 0 \<le> idx \<and> idx < int (length (target m))"
    using valid bs unfolding indices_in_range_def by blast
  have "run_presses (length (target m)) bs ! i = (\<Sum>b\<leftarrow>bs. int (count_list b (int i)))"
    by (simp add: run_presses_nth[OF v i])
  also have "\<dots> \<le> int (length bs)"
    using one bs by (intro sum_list_le_length) blast
  finally show ?thesis .
qed

lemma example_machine1_valid: "indices_in_range example_machine1"
  by (simp add: indices_in_range_def example_machine1_def)

lemma example_machine1_min: "minPresses example_machine1 = Some (Inr 10)"
proof -
  let ?bs = "[[3], [1, 3], [1, 3], [1, 3], [2, 3], [2, 3], [2, 3], [0, 2], [0, 1], [0, 1 :: int]]"
  have 1: "set ?bs \<subseteq> set (buttons example_machine1)"
    by (simp add: example_machine1_def)
  have 2: "run_presses (length (target example_machine1)) ?bs = target example_machine1"
    by (simp add: example_machine1_def run_presses_def press_effect_def add_one_def)
  have 3: "length ?bs \<le> length bs'"
    if "set bs' \<subseteq> set (buttons example_machine1)"
      "run_presses (length (target example_machine1)) bs' = target example_machine1" for bs'
  proof -
    have "run_presses (length (target example_machine1)) bs' ! 0
        + run_presses (length (target example_machine1)) bs' ! 3 \<le> int (length bs')"
      using example_machine1_valid that(1)
      by (rule presses_lower_bound) (simp_all add: example_machine1_def)
    then show ?thesis unfolding that(2) by (simp add: example_machine1_def)
  qed
  have 4: "within_int example_machine1 (Suc (length ?bs))"
    by (rule within_int_by_length[where L = 2]) (simp_all add: example_machine1_def INT_MAX_def)
  from minPresses_shortest_aux[OF example_machine1_valid 1 2 3 4] show ?thesis by simp
qed

lemma example_machine2_valid: "indices_in_range example_machine2"
  by (simp add: indices_in_range_def example_machine2_def)

lemma example_machine2_min: "minPresses example_machine2 = Some (Inr 12)"
proof -
  let ?bs = "[[0, 2, 3, 4], [0, 2, 3, 4], [2, 3], [2, 3], [2, 3], [2, 3], [2, 3],
              [0, 1, 2], [0, 1, 2], [0, 1, 2], [0, 1, 2], [0, 1, 2 :: int]]"
  have 1: "set ?bs \<subseteq> set (buttons example_machine2)"
    by (simp add: example_machine2_def)
  have 2: "run_presses (length (target example_machine2)) ?bs = target example_machine2"
    by (simp add: example_machine2_def run_presses_def press_effect_def add_one_def)
  have 3: "length ?bs \<le> length bs'"
    if "set bs' \<subseteq> set (buttons example_machine2)"
      "run_presses (length (target example_machine2)) bs' = target example_machine2" for bs'
  proof -
    have "run_presses (length (target example_machine2)) bs' ! 2 \<le> int (length bs')"
      using example_machine2_valid that(1)
      by (rule presses_lower_bound1) (simp_all add: example_machine2_def)
    then show ?thesis unfolding that(2) by (simp add: example_machine2_def)
  qed
  have 4: "within_int example_machine2 (Suc (length ?bs))"
    by (rule within_int_by_length[where L = 4]) (simp_all add: example_machine2_def INT_MAX_def)
  from minPresses_shortest_aux[OF example_machine2_valid 1 2 3 4] show ?thesis by simp
qed

lemma example_machine3_valid: "indices_in_range example_machine3"
  by (simp add: indices_in_range_def example_machine3_def)

lemma example_machine3_min: "minPresses example_machine3 = Some (Inr 11)"
proof -
  let ?bs = "[[0, 1, 2, 3, 4], [0, 1, 2, 3, 4], [0, 1, 2, 3, 4], [0, 1, 2, 3, 4], [0, 1, 2, 3, 4],
              [0, 1, 2, 4, 5], [0, 1, 2, 4, 5], [0, 1, 2, 4, 5], [0, 1, 2, 4, 5], [0, 1, 2, 4, 5],
              [1, 2 :: int]]"
  have 1: "set ?bs \<subseteq> set (buttons example_machine3)"
    by (simp add: example_machine3_def)
  have 2: "run_presses (length (target example_machine3)) ?bs = target example_machine3"
    by (simp add: example_machine3_def run_presses_def press_effect_def add_one_def)
  have 3: "length ?bs \<le> length bs'"
    if "set bs' \<subseteq> set (buttons example_machine3)"
      "run_presses (length (target example_machine3)) bs' = target example_machine3" for bs'
  proof -
    have "run_presses (length (target example_machine3)) bs' ! 1 \<le> int (length bs')"
      using example_machine3_valid that(1)
      by (rule presses_lower_bound1) (simp_all add: example_machine3_def)
    then show ?thesis unfolding that(2) by (simp add: example_machine3_def)
  qed
  have 4: "within_int example_machine3 (Suc (length ?bs))"
    by (rule within_int_by_length[where L = 5]) (simp_all add: example_machine3_def INT_MAX_def)
  from minPresses_shortest_aux[OF example_machine3_valid 1 2 3 4] show ?thesis by simp
qed

subsection \<open>A machine whose target is out of reach\<close>

lemma list2_eq: "length s = 2 \<Longrightarrow> s = [s ! 0, s ! 1]"
  by (cases s; cases "tl s") auto

lemma chain_dist_fresh: "chain_dist k [k + 1, 0] = None"
  by (simp add: chain_dist_def)

lemma chain_dist_upd: "0 \<le> k \<Longrightarrow> (chain_dist k)([k + 1, 0] \<mapsto> k + 1) = chain_dist (k + 1)"
proof (rule ext)
  fix s assume k: "0 \<le> k"
  show "((chain_dist k)([k + 1, 0] \<mapsto> k + 1)) s = chain_dist (k + 1) s"
  proof (cases "s = [k + 1, 0]")
    case True
    then show ?thesis using k by (simp add: chain_dist_def)
  next
    case False
    then have "\<not> (length s = 2 \<and> s ! 1 = 0 \<and> s ! 0 = k + 1)"
      using list2_eq[of s] by auto
    then show ?thesis using False by (auto simp: chain_dist_def)
  qed
qed

lemma chain_step:
  assumes "0 \<le> k" and "k < INT_MAX"
  shows "minPresses_loop unreachable_machine ([([k, 0], k)], chain_dist k)
       = minPresses_loop unreachable_machine ([([k + 1, 0], k + 1)], chain_dist (k + 1))"
  using assms
  by (subst minPresses_loop.simps)
     (simp add: unreachable_machine_def chain_dist_fresh chain_dist_upd)

lemma chain_end:
  "minPresses_loop unreachable_machine ([([INT_MAX, 0], INT_MAX)], chain_dist INT_MAX)
     = Some (Inl SignedOverflow)"
  by (subst minPresses_loop.simps) (simp add: unreachable_machine_def INT_MAX_def)

lemma chain_all:
  "0 \<le> k \<Longrightarrow> k \<le> INT_MAX \<Longrightarrow>
   minPresses_loop unreachable_machine ([([k, 0], k)], chain_dist k) = Some (Inl SignedOverflow)"
proof (induction "nat (INT_MAX - k)" arbitrary: k)
  case 0
  then have "k = INT_MAX" by simp
  then show ?case using chain_end by simp
next
  case (Suc n)
  then have lt: "k < INT_MAX" by simp
  have "n = nat (INT_MAX - (k + 1))" using Suc.hyps(2) by simp
  from Suc.hyps(1)[OF this] Suc.prems lt
  have "minPresses_loop unreachable_machine ([([k + 1, 0], k + 1)], chain_dist (k + 1))
      = Some (Inl SignedOverflow)" by simp
  then show ?case using chain_step[OF Suc.prems(1) lt] by simp
qed

lemma chain_dist_0: "[[0, 0] \<mapsto> 0] = chain_dist 0"
proof (rule ext)
  fix s :: "int list"
  show "[[0, 0] \<mapsto> 0] s = chain_dist 0 s"
  proof (cases "s = [0, 0]")
    case True
    then show ?thesis by (simp add: chain_dist_def)
  next
    case False
    then have "\<not> (length s = 2 \<and> s ! 1 = 0 \<and> s ! 0 = 0)"
      using list2_eq[of s] by auto
    then show ?thesis using False by (auto simp: chain_dist_def)
  qed
qed

lemma unreachable_machine_overflow_aux:
  "minPresses unreachable_machine = Some (Inl SignedOverflow)"
proof -
  have "minPresses unreachable_machine
      = minPresses_loop unreachable_machine ([([0, 0], 0)], chain_dist 0)"
    by (simp add: minPresses_def unreachable_machine_def chain_dist_0 numeral_2_eq_2)
  then show ?thesis using chain_all[of 0] by (simp add: INT_MAX_def)
qed

lemma unreachable_machine_no_sequence:
  "\<not> (\<exists>bs. set bs \<subseteq> set (buttons unreachable_machine) \<and>
          run_presses (length (target unreachable_machine)) bs = target unreachable_machine)"
proof
  assume "\<exists>bs. set bs \<subseteq> set (buttons unreachable_machine) \<and>
          run_presses (length (target unreachable_machine)) bs = target unreachable_machine"
  then obtain bs where bs: "set bs \<subseteq> set (buttons unreachable_machine)"
    "run_presses (length (target unreachable_machine)) bs = target unreachable_machine" by blast
  have v: "\<forall>b \<in> set bs. \<forall>idx \<in> set b. 0 \<le> idx \<and> idx < int (length (target unreachable_machine))"
    using bs(1) by (auto simp: unreachable_machine_def)
  have "run_presses (length (target unreachable_machine)) bs ! 1
      = (\<Sum>b\<leftarrow>bs. int (count_list b (int 1)))"
    by (rule run_presses_nth[OF v]) (simp add: unreachable_machine_def)
  also have "\<dots> = (\<Sum>b\<leftarrow>bs. 0)"
    using bs(1) by (intro arg_cong[where f = sum_list] map_cong) (auto simp: unreachable_machine_def)
  finally show False unfolding bs(2) by (simp add: unreachable_machine_def)
qed

subsection \<open>Claims C1 and C2\<close>

lemma example_lines_machines:
  "read_machines example_lines = Inr [example_machine1, example_machine2, example_machine3]"
  by (simp add: example_lines_def parse_machine_line_def isspace_def parseTarget_def
      parseButton_def isdigit_def stoi_def decimal_def digit_val_def INT_MAX_def INT_MIN_def
      example_machine1_def example_machine2_def example_machine3_def)

lemma getlines_example_input: "getlines example_input = example_lines"
  by (simp add: getlines_def example_input_def example_lines_def endl_def)

lemma example_run:
  "main_buttons [''solution'', ''input.md''] [''input.md'' \<mapsto> example_input]
     = Some \<lparr>out = ''Fewest button presses: 33'' @ endl, err = [], ending = Exit 0\<rparr>"
  by (simp add: main_buttons_def getlines_example_input example_lines_machines
      example_machine1_min example_machine2_min example_machine3_min INT_MAX_def show_int_def
      digit_char_def)

text \<open>
  Claim C1, as the code has it.  For every machine whose buttons name only counters that
  exist, whose target is reached from the all-zeros vector by some sequence of presses,
  and whose search stays inside the \<open>int\<close> range up to one press beyond the shortest such
  sequence, \<open>minPresses\<close> returns the length of a shortest sequence.  On the documented
  example input the three minima are 10, 12 and 11, and the program prints the total 33
  (the figure \<open>Day10/README.md\<close> gives for the counters; 7 is its figure for the lights).
\<close>

theorem minPresses_shortest_sequence:
  "(indices_in_range m \<and> set bs \<subseteq> set (buttons m) \<and>
    run_presses (length (target m)) bs = target m \<and>
    (\<forall>bs'. set bs' \<subseteq> set (buttons m) \<and> run_presses (length (target m)) bs' = target m
        \<longrightarrow> length bs \<le> length bs') \<and>
    within_int m (Suc (length bs))
    \<longrightarrow> minPresses m = Some (Inr (int (length bs)))) \<and>
   read_machines (getlines example_input)
     = Inr [example_machine1, example_machine2, example_machine3] \<and>
   map minPresses [example_machine1, example_machine2, example_machine3]
     = [Some (Inr 10), Some (Inr 12), Some (Inr 11)] \<and>
   main_buttons [''solution'', ''input.md''] [''input.md'' \<mapsto> example_input]
     = Some \<lparr>out = ''Fewest button presses: 33'' @ endl, err = [], ending = Exit 0\<rparr>"
proof (intro conjI impI)
  assume a: "indices_in_range m \<and> set bs \<subseteq> set (buttons m) \<and>
    run_presses (length (target m)) bs = target m \<and>
    (\<forall>bs'. set bs' \<subseteq> set (buttons m) \<and> run_presses (length (target m)) bs' = target m
        \<longrightarrow> length bs \<le> length bs') \<and>
    within_int m (Suc (length bs))"
  then have short: "length bs \<le> length bs'"
    if "set bs' \<subseteq> set (buttons m)" "run_presses (length (target m)) bs' = target m" for bs'
    using that by blast
  from a show "minPresses m = Some (Inr (int (length bs)))"
    by (intro minPresses_shortest_aux short) simp_all
next
  show "read_machines (getlines example_input)
     = Inr [example_machine1, example_machine2, example_machine3]"
    by (simp add: getlines_example_input example_lines_machines)
next
  show "map minPresses [example_machine1, example_machine2, example_machine3]
     = [Some (Inr 10), Some (Inr 12), Some (Inr 11)]"
    by (simp add: example_machine1_min example_machine2_min example_machine3_min)
next
  show "main_buttons [''solution'', ''input.md''] [''input.md'' \<mapsto> example_input]
     = Some \<lparr>out = ''Fewest button presses: 33'' @ endl, err = [], ending = Exit 0\<rparr>"
    by (rule example_run)
qed

theorem minPresses_shortest_sequence_witness:
  "minPresses \<lparr>buttons = [[0]], target = [1]\<rparr> = Some (Inr 1)"
proof -
  let ?m = "\<lparr>buttons = [[0]], target = [1]\<rparr>"
  have 1: "indices_in_range ?m" by (simp add: indices_in_range_def)
  have 2: "set [[0]] \<subseteq> set (buttons ?m)" by simp
  have 3: "run_presses (length (target ?m)) [[0]] = target ?m"
    by (simp add: run_presses_def press_effect_def add_one_def)
  have 4: "\<forall>bs'. set bs' \<subseteq> set (buttons ?m) \<and> run_presses (length (target ?m)) bs' = target ?m
        \<longrightarrow> length [[0::int]] \<le> length bs'"
  proof (intro allI impI)
    fix bs' :: "int list list"
    assume "set bs' \<subseteq> set (buttons ?m) \<and> run_presses (length (target ?m)) bs' = target ?m"
    then have "bs' \<noteq> []" by (auto simp: run_presses_def)
    then show "length [[0::int]] \<le> length bs'" by (cases bs') auto
  qed
  have 5: "within_int ?m (Suc (length [[0::int]]))"
    by (rule within_int_by_length[where L = 1]) (simp_all add: INT_MAX_def)
  from minPresses_shortest_sequence[of ?m "[[0]]", THEN conjunct1] 1 2 3 4 5
  show ?thesis by simp
qed

text \<open>
  The claim as written fails: on the example the minima are 10, 12 and 11, which sum to
  33 and not to 7; and a button that names a counter beyond the last makes the search
  write outside the state vector although the target is one press away.
\<close>

theorem minPresses_example_counterexample:
  "minPresses example_machine1 = Some (Inr 10) \<and>
   minPresses example_machine2 = Some (Inr 12) \<and>
   minPresses example_machine3 = Some (Inr 11) \<and>
   (10 + 12 + 11 :: int) \<noteq> 7 \<and>
   run_presses 1 [[0]] = [1] \<and>
   minPresses \<lparr>buttons = [[0], [5]], target = [1]\<rparr> = Some (Inl OutOfBounds)"
proof -
  have "run_presses 1 [[0]] = [1]"
    by (simp add: run_presses_def press_effect_def add_one_def)
  moreover have "minPresses \<lparr>buttons = [[0], [5]], target = [1]\<rparr> = Some (Inl OutOfBounds)"
    by (simp add: minPresses_def minPresses_loop.simps INT_MAX_def)
  ultimately show ?thesis
    by (simp add: example_machine1_min example_machine2_min example_machine3_min)
qed

text \<open>
  Claim C2 at the machine with the single button \<open>(0)\<close> and the target \<open>{0,1}\<close> (the input
  line \<open>[..] (0) {0,1}\<close>).  No sequence of presses reaches the target, and \<open>minPresses\<close>
  does not return \<open>-1\<close>: the search visits \<open>[k, 0]\<close> for every \<open>k\<close> up to \<open>INT_MAX\<close> and then
  increments an \<open>int\<close> that holds \<open>INT_MAX\<close>.
\<close>

theorem minPresses_unreachable_not_minus_one:
  "\<not> (\<exists>bs. set bs \<subseteq> set (buttons unreachable_machine) \<and>
          run_presses (length (target unreachable_machine)) bs = target unreachable_machine) \<and>
   parse_machine_line ''[..] (0) {0,1}'' = Inr (Some unreachable_machine) \<and>
   minPresses unreachable_machine = Some (Inl SignedOverflow)"
proof -
  have "parse_machine_line ''[..] (0) {0,1}'' = Inr (Some unreachable_machine)"
    by (simp add: parse_machine_line_def isspace_def parseTarget_def
      parseButton_def isdigit_def stoi_def decimal_def digit_val_def INT_MAX_def INT_MIN_def
      unreachable_machine_def)
  then show ?thesis
    using unreachable_machine_no_sequence unreachable_machine_overflow_aux by simp
qed

section \<open>Proofs: the states of the Day 10 searches stay within the targets\<close>

lemma within_targets_update:
  assumes "within_targets targets s" and "i < length targets"
    and "0 \<le> v" and "v \<le> targets ! i"
  shows "within_targets targets (s[i := v])"
  using assms unfolding within_targets_def by (auto simp: nth_list_update)

lemma apply_button_within:
  "within_targets targets s \<Longrightarrow> apply_button targets button s = Inr (Some s') \<Longrightarrow>
   within_targets targets s'"
proof (induction button arbitrary: s)
  case Nil
  then show ?case by simp
next
  case (Cons idx rest)
  show ?case
  proof (cases "idx < int (length targets)")
    case False
    then show ?thesis using Cons by simp
  next
    case True
    with Cons.prems(2) have idx: "0 \<le> idx" and nmax: "s ! nat idx \<noteq> INT_MAX"
      and le: "s ! nat idx + 1 \<le> targets ! nat idx"
      and rec: "apply_button targets rest (s[nat idx := s ! nat idx + 1]) = Inr (Some s')"
      by (auto split: if_splits)
    have i: "nat idx < length targets" using True idx by simp
    have "0 \<le> s ! nat idx" using Cons.prems(1) i by (simp add: within_targets_def)
    then have "within_targets targets (s[nat idx := s ! nat idx + 1])"
      using Cons.prems(1) i le by (intro within_targets_update) simp_all
    then show ?thesis using rec by (rule Cons.IH)
  qed
qed

lemma try_buttons_bounded_within:
  assumes "within_targets targets cur"
  shows "try_buttons_bounded targets cap bs k cur presses pc (q, visited) = Inr (q', visited') \<Longrightarrow>
    \<forall>s \<in> visited \<union> fst ` set q. within_targets targets s \<Longrightarrow>
    \<forall>s \<in> visited' \<union> fst ` set q'. within_targets targets s"
proof (induction bs arbitrary: k q visited)
  case Nil
  then show ?case by simp
next
  case (Cons b bs)
  show ?case
  proof (cases "pc ! k \<ge> cap")
    case True
    then show ?thesis using Cons by simp
  next
    case False
    show ?thesis
    proof (cases "apply_button targets b cur")
      case (Inl f)
      then show ?thesis using Cons.prems False by simp
    next
      case (Inr r)
      show ?thesis
      proof (cases r)
        case None
        then show ?thesis using Cons Inr False by simp
      next
        case (Some ns)
        have w: "within_targets targets ns"
          using assms Inr Some by (auto intro: apply_button_within)
        show ?thesis
        proof (cases "ns \<in> visited")
          case True
          then show ?thesis using Cons Inr Some False by simp
        next
          case nv: False
          let ?q1 = "q @ [(ns, presses + 1, pc[k := pc ! k + 1])]"
          have "try_buttons_bounded targets cap bs (Suc k) cur presses pc (?q1, insert ns visited)
              = Inr (q', visited')"
            using Cons.prems(1) Inr Some False nv by (simp add: Let_def)
          moreover have "\<forall>s \<in> insert ns visited \<union> fst ` set ?q1. within_targets targets s"
            using Cons.prems(2) w by auto
          ultimately show ?thesis by (rule Cons.IH)
        qed
      qed
    qed
  qed
qed

lemma try_buttons_dijkstra_within:
  assumes "within_targets targets cur"
  shows "try_buttons_dijkstra targets cap bs k cur cost pc (pq, min_cost) = Inr (pq', min_cost') \<Longrightarrow>
    \<forall>s \<in> dom min_cost \<union> (\<lambda>x. fst (snd x)) ` set pq. within_targets targets s \<Longrightarrow>
    \<forall>s \<in> dom min_cost' \<union> (\<lambda>x. fst (snd x)) ` set pq'. within_targets targets s"
proof (induction bs arbitrary: k pq min_cost)
  case Nil
  then show ?case by simp
next
  case (Cons b bs)
  show ?case
  proof (cases "pc ! k \<ge> cap")
    case True
    then show ?thesis using Cons by simp
  next
    case False
    show ?thesis
    proof (cases "apply_button targets b cur")
      case (Inl f)
      then show ?thesis using Cons.prems False by simp
    next
      case (Inr r)
      show ?thesis
      proof (cases r)
        case None
        then show ?thesis using Cons Inr False by simp
      next
        case (Some ns)
        have w: "within_targets targets ns"
          using assms Inr Some by (auto intro: apply_button_within)
        have nmax: "cost \<noteq> INT_MAX" using Cons.prems(1) Inr Some False by (auto simp: Let_def)
        show ?thesis
        proof (cases "min_cost ns = None \<or> cost + 1 < the (min_cost ns)")
          case nt: False
          have "try_buttons_dijkstra targets cap bs (Suc k) cur cost pc (pq, min_cost)
              = Inr (pq', min_cost')"
            using Cons.prems(1) Inr Some False nt nmax by (simp add: Let_def)
          then show ?thesis using Cons.prems(2) by (rule Cons.IH)
        next
          case True
          let ?pq1 = "insort (cost + 1, ns, pc[k := pc ! k + 1]) pq"
          let ?m1 = "min_cost(ns \<mapsto> cost + 1)"
          have "try_buttons_dijkstra targets cap bs (Suc k) cur cost pc (?pq1, ?m1)
              = Inr (pq', min_cost')"
            using Cons.prems(1) Inr Some False True nmax by (simp add: Let_def)
          moreover have "\<forall>s \<in> dom ?m1 \<union> (\<lambda>x. fst (snd x)) ` set ?pq1. within_targets targets s"
            using Cons.prems(2) w by (auto simp: set_insort_key)
          ultimately show ?thesis by (rule Cons.IH)
        qed
      qed
    qed
  qed
qed

lemma within_targets_start:
  "\<forall>t \<in> set targets. 0 \<le> t \<Longrightarrow> within_targets targets (replicate (length targets) 0)"
  by (simp add: within_targets_def)

lemma bounded_visits_within:
  assumes "\<forall>t \<in> set targets. 0 \<le> t"
  shows "bounded_visits buttons' targets cap cfg \<Longrightarrow>
     \<forall>s \<in> fst (snd cfg) \<union> fst ` set (fst cfg). within_targets targets s"
proof (induction rule: bounded_visits.induct)
  case start
  then show ?case using within_targets_start[OF assms] by (simp add: bounded_init_def Let_def)
next
  case (step cfg cfg')
  obtain q visited best where cfg: "cfg = (q, visited, best)" by (cases cfg) auto
  show ?case
  proof (cases q)
    case Nil
    then show ?thesis using step.hyps(2) cfg by (simp add: bounded_step_def)
  next
    case (Cons x q')
    obtain cur presses pc where x: "x = (cur, presses, pc)" by (cases x) auto
    have wc: "within_targets targets cur" and old: "\<forall>s \<in> visited \<union> fst ` set q'. within_targets targets s"
      using step.IH cfg Cons x by auto
    show ?thesis
    proof (cases "cur = targets \<or> presses \<ge> best")
      case True
      then have "cfg' = (q', visited, min best presses) \<or> cfg' = (q', visited, best)"
        using step.hyps(2) cfg Cons x by (auto simp: bounded_step_def split: if_splits)
      then show ?thesis using old by fastforce
    next
      case False
      then obtain q'' visited' where
        t: "try_buttons_bounded targets cap buttons' 0 cur presses pc (q', visited) = Inr (q'', visited')"
        and c': "cfg' = (q'', visited', best)"
        using step.hyps(2) cfg Cons x
        by (auto simp: bounded_step_def split: if_splits sum.splits)
      from try_buttons_bounded_within[OF wc t old] c' show ?thesis by simp
    qed
  qed
qed

lemma dijkstra_visits_within:
  assumes "\<forall>t \<in> set targets. 0 \<le> t"
  shows "dijkstra_visits buttons' targets cap cfg \<Longrightarrow>
     \<forall>s \<in> dom (snd cfg) \<union> (\<lambda>x. fst (snd x)) ` set (fst cfg). within_targets targets s"
proof (induction rule: dijkstra_visits.induct)
  case start
  then show ?case using within_targets_start[OF assms]
    by (auto simp: dijkstra_init_def Let_def split: if_splits)
next
  case (step cfg cfg')
  obtain pq min_cost where cfg: "cfg = (pq, min_cost)" by (cases cfg) auto
  show ?case
  proof (cases pq)
    case Nil
    then show ?thesis using step.hyps(2) cfg by (simp add: dijkstra_step_def)
  next
    case (Cons x pq')
    obtain cost cur pc where x: "x = (cost, cur, pc)" by (cases x) auto
    let ?m1 = "if min_cost cur = None then min_cost(cur \<mapsto> 0) else min_cost"
    have wc: "within_targets targets cur"
      using step.IH cfg Cons x by auto
    have old: "\<forall>s \<in> dom ?m1 \<union> (\<lambda>x. fst (snd x)) ` set pq'. within_targets targets s"
      using step.IH cfg Cons x by auto
    show ?thesis
    proof (cases "cost > the (?m1 cur)")
      case True
      then have "cfg' = (pq', ?m1)"
        using step.hyps(2) cfg Cons x by (simp add: dijkstra_step_def Let_def)
      then show ?thesis using old by simp
    next
      case False
      then have t: "try_buttons_dijkstra targets cap buttons' 0 cur cost pc (pq', ?m1) = Inr cfg'"
        using step.hyps(2) cfg Cons x
        by (auto simp: dijkstra_step_def Let_def split: if_splits sum.splits)
      obtain pq'' m'' where c': "cfg' = (pq'', m'')" by (cases cfg') auto
      from try_buttons_dijkstra_within[OF wc t[unfolded c'] old] c' show ?thesis by simp
    qed
  qed
qed

text \<open>
  Claim C9, as the code has it.  When no target is negative, every state in the queue and
  the visited set of the bounded search, and every state in the priority queue and the
  \<open>min_cost\<close> map of the Dijkstra search, has the length of the targets and satisfies
  \<open>0 \<le> state[i] \<le> targets[i]\<close> at every index.  A press is applied to such a state only as
  far as it stays so: when the loop over a button's entries ends with \<open>valid\<close> true, the
  new state is within the targets again.  An entry naming an index \<open>\<ge> n\<close> is skipped.
\<close>

theorem day10_states_within_targets:
  "(\<forall>t \<in> set targets. 0 \<le> t) \<longrightarrow>
     (bounded_visits buttons' targets cap (q, visited, best_cost) \<longrightarrow>
        (\<forall>s \<in> visited \<union> fst ` set q. within_targets targets s)) \<and>
     (dijkstra_visits buttons' targets cap (pq, min_cost) \<longrightarrow>
        (\<forall>s \<in> dom min_cost \<union> (\<lambda>x. fst (snd x)) ` set pq. within_targets targets s)) \<and>
     (within_targets targets s \<and> apply_button targets button s = Inr (Some s') \<longrightarrow>
        within_targets targets s') \<and>
     (int (length targets) \<le> counter_idx \<longrightarrow>
        apply_button targets (counter_idx # rest) s = apply_button targets rest s)"
proof (intro impI conjI)
  assume t: "\<forall>t \<in> set targets. 0 \<le> t"
  {
    assume "bounded_visits buttons' targets cap (q, visited, best_cost)"
    from bounded_visits_within[OF t this]
    show "\<forall>s \<in> visited \<union> fst ` set q. within_targets targets s" by simp
  }
  {
    assume "dijkstra_visits buttons' targets cap (pq, min_cost)"
    from dijkstra_visits_within[OF t this]
    show "\<forall>s \<in> dom min_cost \<union> (\<lambda>x. fst (snd x)) ` set pq. within_targets targets s" by simp
  }
  {
    assume "within_targets targets s \<and> apply_button targets button s = Inr (Some s')"
    then show "within_targets targets s'" using apply_button_within by blast
  }
  {
    assume "int (length targets) \<le> counter_idx"
    then show "apply_button targets (counter_idx # rest) s = apply_button targets rest s"
      by simp
  }
qed

theorem day10_states_within_targets_witness:
  "bounded_visits [[0]] [1] 50 ([([1], 1, [1])], {[0], [1]}, INT_MAX) \<and> within_targets [1] [1]"
proof -
  have st: "bounded_step [[0]] [1] 50 (bounded_init [[0]] [1])
      = Inr ([([1], 1, [1])], {[0], [1]}, INT_MAX)"
    by (auto simp: bounded_step_def bounded_init_def Let_def INT_MAX_def)
  have v: "bounded_visits [[0]] [1] 50 ([([1], 1, [1])], {[0], [1]}, INT_MAX)"
    by (rule bounded_visits.step[OF bounded_visits.start st])
  have "\<forall>t \<in> set [1::int]. 0 \<le> t" by simp
  with day10_states_within_targets[of "[1]" "[[0]]" 50 "[([1], 1, [1])]" "{[0], [1]}" INT_MAX] v
  have "\<forall>s \<in> {[0], [1]} \<union> fst ` set [([1], 1::int, [1::int])]. within_targets [1] s" by blast
  then show ?thesis using v by simp
qed

text \<open>
  The claim as written fails when a target is negative (\<open>stoi\<close> reads a sign): the start
  state is inserted into the visited set and the \<open>min_cost\<close> map with \<open>0 > targets[0]\<close>.
\<close>

theorem day10_negative_target_counterexample:
  "parse_machine_part2 ''(0) {-1}'' = Inr ([[0]], [- 1]) \<and>
   bounded_visits [[0]] [- 1] 50 ([([0], 0, [0])], {[0]}, INT_MAX) \<and>
   dijkstra_visits [[0]] [- 1] 100 ([(0, [0], [0])], [[0] \<mapsto> 0]) \<and>
   \<not> within_targets [- 1] [0]"
proof -
  have "parse_machine_part2 ''(0) {-1}'' = Inr ([[0]], [- 1])"
    by (simp add: parse_machine_part2_def comma_ints_def stoi_def isspace_def isdigit_def
        decimal_def digit_val_def INT_MAX_def INT_MIN_def)
  moreover have "bounded_visits [[0]] [- 1] 50 ([([0], 0, [0])], {[0]}, INT_MAX)"
    using bounded_visits.start[of "[[0]]" "[- 1]" 50] by (simp add: bounded_init_def Let_def)
  moreover have "dijkstra_visits [[0]] [- 1] 100 ([(0, [0], [0])], [[0] \<mapsto> 0])"
    using dijkstra_visits.start[of "[[0]]" "[- 1]" 100] by (simp add: dijkstra_init_def Let_def)
  moreover have "\<not> within_targets [- 1] [0]" by (simp add: within_targets_def)
  ultimately show ?thesis by simp
qed

section \<open>Proofs: the two rectangle checks of Day 9\<close>





text \<open>
  The crossing point of a vertical edge is its \<open>x\<close>: the only case a rectilinear polygon
  puts to \<open>isInsidePolygon\<close>, and one in which the \<open>double\<close> arithmetic is exact.
\<close>

lemma x_intersect_vertical: "x_intersect x1 y1 x1 y2 testy = of_int x1"
  by (simp add: x_intersect_def)




section \<open>Proofs: how the programs end\<close>










section \<open>Proofs: what the programs print\<close>














section \<open>Proofs: lines that contribute nothing\<close>
















section \<open>Proofs: the two Day 10 searches compared\<close>

subsection \<open>Presses within the targets\<close>

lemma apply_button_spec:
  assumes "\<forall>idx \<in> set b. 0 \<le> idx" and "\<forall>x \<in> set t. x < INT_MAX" and "within_targets t s"
  shows "apply_button t b s =
     Inr (if within_targets t (press_effect (effective t b) s)
          then Some (press_effect (effective t b) s) else None)"
  using assms(1,3)
proof (induction b arbitrary: s)
  case Nil
  then show ?case by (simp add: effective_def press_effect_def)
next
  case (Cons idx b)
  have len: "length s = length t" using Cons.prems(2) by (simp add: within_targets_def)
  show ?case
  proof (cases "idx < int (length t)")
    case False
    then have "effective t (idx # b) = effective t b" by (simp add: effective_def)
    then show ?thesis using False Cons by simp
  next
    case True
    have idx: "0 \<le> idx" using Cons.prems(1) by simp
    then have i: "nat idx < length t" using True by simp
    have eff: "effective t (idx # b) = idx # effective t b" using True by (simp add: effective_def)
    have "s ! nat idx \<le> t ! nat idx" using Cons.prems(2) i by (simp add: within_targets_def)
    moreover have "t ! nat idx < INT_MAX" using assms(2) i by simp
    ultimately have nmax: "s ! nat idx \<noteq> INT_MAX" by simp
    show ?thesis
    proof (cases "s ! nat idx + 1 > t ! nat idx")
      case over: True
      have "add_one s idx ! nat idx \<le> press_effect (effective t b) (add_one s idx) ! nat idx"
        using i len by (intro press_effect_mono) simp
      then have "t ! nat idx < press_effect (effective t (idx # b)) s ! nat idx"
        using over i len by (simp add: eff press_effect_Cons add_one_def)
      then have "\<not> within_targets t (press_effect (effective t (idx # b)) s)"
        using i by (auto simp: within_targets_def)
      then show ?thesis using True idx nmax over by simp
    next
      case False
      have "0 \<le> s ! nat idx" using Cons.prems(2) i by (simp add: within_targets_def)
      then have w: "within_targets t (s[nat idx := s ! nat idx + 1])"
        using Cons.prems(2) i False by (intro within_targets_update) simp_all
      have "apply_button t b (s[nat idx := s ! nat idx + 1]) =
          Inr (if within_targets t (press_effect (effective t b) (s[nat idx := s ! nat idx + 1]))
            then Some (press_effect (effective t b) (s[nat idx := s ! nat idx + 1])) else None)"
        using Cons.prems(1) w by (intro Cons.IH) simp_all
      then show ?thesis using True idx nmax False
        by (simp add: eff press_effect_Cons add_one_def)
    qed
  qed
qed

lemma run_presses_nonneg: "i < n \<Longrightarrow> 0 \<le> run_presses n bs ! i"
proof (induction bs rule: rev_induct)
  case Nil
  then show ?case by (simp add: run_presses_def)
next
  case (snoc b bs)
  have "run_presses n bs ! i \<le> press_effect b (run_presses n bs) ! i"
    using snoc.prems by (intro press_effect_mono) simp
  then show ?case using snoc by (simp add: run_presses_snoc)
qed

lemma reach_nonneg: "reach m k s \<Longrightarrow> i < length (target m) \<Longrightarrow> 0 \<le> s ! i"
  by (auto simp: reach_def run_presses_nonneg)

lemma well_formed_machineD:
  assumes "well_formed_machine bs t"
  shows "\<forall>x \<in> set t. x < INT_MAX" and "\<forall>x \<in> set t. 0 \<le> x"
    and "b \<in> set bs \<Longrightarrow> \<forall>idx \<in> set b. 0 \<le> idx"
  using assms by (auto simp: well_formed_machine_def)

lemma reachw_within: "reachw bs t k s \<Longrightarrow> within_targets t s"
  by (simp add: reachw_def)

lemma reachw_0:
  assumes "well_formed_machine bs t"
  shows "reachw bs t 0 s \<longleftrightarrow> s = replicate (length t) 0"
  using within_targets_start[OF well_formed_machineD(2)[OF assms]]
  by (auto simp: reachw_def reach_0 eff_machine_def)

lemma reachw_Suc:
  assumes wf: "well_formed_machine bs t"
  shows "reachw bs t (Suc k) s \<longleftrightarrow>
     (\<exists>s' b. reachw bs t k s' \<and> b \<in> set bs \<and> apply_button t b s' = Inr (Some s))"
proof
  assume r: "reachw bs t (Suc k) s"
  then have ws: "within_targets t s" by (rule reachw_within)
  from r obtain s' b' where s': "reach (eff_machine bs t) k s'"
    and b': "b' \<in> set (buttons (eff_machine bs t))" and s: "s = press_effect b' s'"
    unfolding reachw_def using reach_Suc by blast
  from b' obtain b where b: "b \<in> set bs" "b' = effective t b" by (auto simp: eff_machine_def)
  have len: "length s' = length t" using reach_length[OF s'] by (simp add: eff_machine_def)
  have "within_targets t s'"
    unfolding within_targets_def
  proof (intro conjI allI impI)
    show "length s' = length t" by fact
    fix i assume i: "i < length t"
    show "0 \<le> s' ! i" using reach_nonneg[OF s'] i by (simp add: eff_machine_def)
    have "s' ! i \<le> s ! i" unfolding s using i len by (intro press_effect_mono) simp
    also have "\<dots> \<le> t ! i" using ws i by (simp add: within_targets_def)
    finally show "s' ! i \<le> t ! i" .
  qed
  then have w': "reachw bs t k s'" using s' by (simp add: reachw_def)
  have "apply_button t b s' = Inr (Some s)"
    using apply_button_spec[OF well_formed_machineD(3)[OF wf b(1)] well_formed_machineD(1)[OF wf]
        reachw_within[OF w']] ws s b(2) by simp
  then show "\<exists>s' b. reachw bs t k s' \<and> b \<in> set bs \<and> apply_button t b s' = Inr (Some s)"
    using w' b(1) by blast
next
  assume "\<exists>s' b. reachw bs t k s' \<and> b \<in> set bs \<and> apply_button t b s' = Inr (Some s)"
  then obtain s' b where w': "reachw bs t k s'" and b: "b \<in> set bs"
    and a: "apply_button t b s' = Inr (Some s)" by blast
  from apply_button_spec[OF well_formed_machineD(3)[OF wf b] well_formed_machineD(1)[OF wf]
      reachw_within[OF w']] a
  have s: "s = press_effect (effective t b) s'" and ws: "within_targets t s"
    by (auto split: if_splits)
  have "effective t b \<in> set (buttons (eff_machine bs t))" using b by (simp add: eff_machine_def)
  then have "reach (eff_machine bs t) (Suc k) s"
    using w' s reach_Suc unfolding reachw_def by blast
  then show "reachw bs t (Suc k) s" using ws by (simp add: reachw_def)
qed

lemma apply_button_no_fault:
  assumes "well_formed_machine bs t" and "b \<in> set bs" and "within_targets t s"
  shows "\<exists>r. apply_button t b s = Inr r"
  using apply_button_spec[OF well_formed_machineD(3)[OF assms(1,2)]
      well_formed_machineD(1)[OF assms(1)] assms(3)] by simp

lemma finite_within_targets: "finite {s. within_targets t s}"
proof -
  let ?M = "Max (insert 0 (set t))"
  have "{s. within_targets t s} \<subseteq> {s. set s \<subseteq> {0..?M} \<and> length s = length t}"
  proof
    fix s assume "s \<in> {s. within_targets t s}"
    then have w: "within_targets t s" by simp
    have "x \<in> {0..?M}" if "x \<in> set s" for x
    proof -
      from that obtain i where i: "i < length s" "x = s ! i" by (auto simp: in_set_conv_nth)
      then have il: "i < length t" using w by (simp add: within_targets_def)
      then have "0 \<le> x" "x \<le> t ! i" using w i by (simp_all add: within_targets_def)
      moreover have "t ! i \<le> ?M" using il by (intro Max_ge) auto
      ultimately show ?thesis by simp
    qed
    then show "s \<in> {s. set s \<subseteq> {0..?M} \<and> length s = length t}"
      using w by (auto simp: within_targets_def)
  qed
  moreover have "finite {s. set s \<subseteq> {0..?M} \<and> length s = length t}"
    by (rule finite_lists_length_eq) simp
  ultimately show ?thesis by (rule finite_subset)
qed

subsection \<open>Press counts\<close>

lemma sum_list_update_plus1:
  "i < length xs \<Longrightarrow> sum_list (xs[i := xs ! i + 1]) = sum_list xs + (1::int)"
  by (induction xs arbitrary: i) (auto split: nat.splits)

lemma nth_le_sum_list_nonneg:
  "\<forall>x \<in> set xs. (0::int) \<le> x \<Longrightarrow> i < length xs \<Longrightarrow> xs ! i \<le> sum_list xs"
  by (simp add: member_le_sum_list)

lemma sum_list_le_cap:
  "\<forall>x \<in> set xs. x \<le> (cap::int) \<Longrightarrow> sum_list xs \<le> cap * int (length xs)"
  by (induction xs) (auto simp: algebra_simps)

lemma counts_ok_step:
  assumes "counts_ok m cap p pc" and "i < m" and "pc ! i < cap"
  shows "counts_ok m cap (p + 1) (pc[i := pc ! i + 1])"
  using assms unfolding counts_ok_def
  by (auto simp: nth_list_update sum_list_update_plus1)

lemma counts_ok_below:
  assumes "counts_ok m cap p pc" and "i < m"
  shows "pc ! i \<le> p"
proof -
  have "\<forall>x \<in> set pc. 0 \<le> x" using assms(1) by (auto simp: counts_ok_def in_set_conv_nth)
  then show ?thesis using assms nth_le_sum_list_nonneg[of pc i] by (simp add: counts_ok_def)
qed

lemma counts_ok_bound:
  assumes "counts_ok m cap p pc"
  shows "p \<le> cap * int m"
proof -
  have "\<forall>x \<in> set pc. x \<le> cap" using assms by (auto simp: counts_ok_def in_set_conv_nth)
  then show ?thesis using sum_list_le_cap[of pc cap] assms by (simp add: counts_ok_def)
qed

lemma counts_ok_init: "0 \<le> cap \<Longrightarrow> counts_ok m cap 0 (replicate m 0)"
  by (simp add: counts_ok_def sum_list_replicate)


subsection \<open>The shared invariant\<close>

lemma search_inv_init:
  assumes wf: "well_formed_machine bs t" and cap: "0 \<le> cap"
  shows "search_inv bs t cap D 0
     {(replicate (length t) 0, 0, replicate (length bs) 0)} {replicate (length t) 0}"
proof -
  have r0: "reachw bs t 0 (replicate (length t) 0)" using reachw_0[OF wf] by simp
  show ?thesis
    unfolding search_inv_def
    using r0 counts_ok_init[OF cap] reachw_0[OF wf] by auto
qed

lemma search_inv_level_up:
  assumes wf: "well_formed_machine bs t"
    and inv: "search_inv bs t cap D c F S"
    and lvl: "\<forall>(s, p, pc) \<in> F. p = c + 1"
  shows "search_inv bs t cap D (c + 1) F S"
proof -
  note I = inv[unfolded search_inv_def]
  have c0: "0 \<le> c" using I by (elim conjE)
  have a1: "\<forall>(s, p, pc) \<in> F.
        s \<in> S \<and> c \<le> p \<and> p \<le> c + 1 \<and> reachw bs t (nat p) s \<and>
        counts_ok (length bs) cap p pc \<and>
        (\<forall>k. reachw bs t k s \<longrightarrow> nat p \<le> k \<or> D < k)" using I by (elim conjE)
  have a2: "\<forall>s \<in> S. \<exists>k. reachw bs t k s" using I by (elim conjE)
  have a3: "\<forall>s \<in> S. s \<notin> fst ` F \<longrightarrow>
        s \<noteq> t \<and>
        (\<forall>k < D. reachw bs t k s \<longrightarrow>
           (\<forall>b \<in> set bs. \<forall>s'. apply_button t b s = Inr (Some s') \<longrightarrow> s' \<in> S))"
    using I by (elim conjE)
  have a4: "\<forall>k s. reachw bs t k s \<longrightarrow> int k \<le> c \<longrightarrow> k \<le> D \<longrightarrow> s \<in> S" using I by (elim conjE)
  have n1: "\<forall>(s, p, pc) \<in> F.
        s \<in> S \<and> c + 1 \<le> p \<and> p \<le> c + 1 + 1 \<and> reachw bs t (nat p) s \<and>
        counts_ok (length bs) cap p pc \<and>
        (\<forall>k. reachw bs t k s \<longrightarrow> nat p \<le> k \<or> D < k)"
    using a1 lvl by fastforce
  have n4: "\<forall>k s. reachw bs t k s \<longrightarrow> int k \<le> c + 1 \<longrightarrow> k \<le> D \<longrightarrow> s \<in> S"
  proof (intro allI impI)
    fix k s assume r: "reachw bs t k s" and kc: "int k \<le> c + 1" and kD: "k \<le> D"
    show "s \<in> S"
    proof (cases "int k \<le> c")
      case True
      then show ?thesis using a4 r kD by blast
    next
      case False
      then have "int k = c + 1" using kc by simp
      then obtain k' where k': "k = Suc k'" "int k' = c" using c0 by (cases k) auto
      then obtain s' b where s': "reachw bs t k' s'" and b: "b \<in> set bs"
        and ab: "apply_button t b s' = Inr (Some s)"
        using r reachw_Suc[OF wf] by blast
      have s'S: "s' \<in> S" using a4 s' k' kD by simp
      have "s' \<notin> fst ` F"
      proof
        assume "s' \<in> fst ` F"
        then obtain p pc where f: "(s', p, pc) \<in> F" by force
        then have "p = c + 1" using lvl by blast
        moreover have "nat p \<le> k' \<or> D < k'" using a1 f s' by blast
        ultimately show False using k' kD by simp
      qed
      moreover have "k' < D" using k' kD by simp
      ultimately show ?thesis using a3 s'S s' b ab by blast
    qed
  qed
  have n0: "0 \<le> c + 1" using c0 by simp
  show ?thesis unfolding search_inv_def by (intro conjI n0 n1 a2 a3 n4)
qed

lemma search_inv_step:
  assumes wf: "well_formed_machine bs t"
    and inv: "search_inv bs t cap D c (insert (s, c, pc) R) S"
    and nt: "s \<noteq> t"
    and N: "N \<subseteq> {s'. \<exists>b \<in> set bs. apply_button t b s = Inr (Some s')} - S"
    and full: "nat c < D \<Longrightarrow> {s'. \<exists>b \<in> set bs. apply_button t b s = Inr (Some s')} - S \<subseteq> N"
    and Fn: "\<forall>(s', p', pc') \<in> Fn. s' \<in> N \<and> p' = c + 1 \<and> counts_ok (length bs) cap (c + 1) pc'"
    and NF: "N \<subseteq> fst ` Fn"
  shows "search_inv bs t cap D c (R \<union> Fn) (S \<union> N)"
proof -
  note I = inv[unfolded search_inv_def]
  have c0: "0 \<le> c" using I by (elim conjE)
  have a1: "\<forall>(s, p, pc) \<in> insert (s, c, pc) R.
        s \<in> S \<and> c \<le> p \<and> p \<le> c + 1 \<and> reachw bs t (nat p) s \<and>
        counts_ok (length bs) cap p pc \<and>
        (\<forall>k. reachw bs t k s \<longrightarrow> nat p \<le> k \<or> D < k)" using I by (elim conjE)
  have a2: "\<forall>s \<in> S. \<exists>k. reachw bs t k s" using I by (elim conjE)
  have a3: "\<forall>s' \<in> S. s' \<notin> fst ` insert (s, c, pc) R \<longrightarrow>
        s' \<noteq> t \<and>
        (\<forall>k < D. reachw bs t k s' \<longrightarrow>
           (\<forall>b \<in> set bs. \<forall>s''. apply_button t b s' = Inr (Some s'') \<longrightarrow> s'' \<in> S))"
    using I by (elim conjE)
  have a4: "\<forall>k s. reachw bs t k s \<longrightarrow> int k \<le> c \<longrightarrow> k \<le> D \<longrightarrow> s \<in> S" using I by (elim conjE)
  have rs: "reachw bs t (nat c) s" and ms: "\<And>k. reachw bs t k s \<Longrightarrow> nat c \<le> k \<or> D < k"
    using a1 by auto
  have rN: "reachw bs t (Suc (nat c)) s'" if "s' \<in> N" for s'
    using that N rs reachw_Suc[OF wf] by blast
  have n1: "\<forall>(s', p, pc') \<in> R \<union> Fn.
        s' \<in> S \<union> N \<and> c \<le> p \<and> p \<le> c + 1 \<and> reachw bs t (nat p) s' \<and>
        counts_ok (length bs) cap p pc' \<and>
        (\<forall>k. reachw bs t k s' \<longrightarrow> nat p \<le> k \<or> D < k)"
  proof (clarify)
    fix s' p pc' assume "(s', p, pc') \<in> R \<union> Fn"
    then consider "(s', p, pc') \<in> R" | "(s', p, pc') \<in> Fn" by blast
    then show "s' \<in> S \<union> N \<and> c \<le> p \<and> p \<le> c + 1 \<and> reachw bs t (nat p) s' \<and>
        counts_ok (length bs) cap p pc' \<and>
        (\<forall>k. reachw bs t k s' \<longrightarrow> nat p \<le> k \<or> D < k)"
    proof cases
      case 1
      then show ?thesis using a1 by fastforce
    next
      case 2
      then have sN: "s' \<in> N" and p: "p = c + 1" and co: "counts_ok (length bs) cap (c + 1) pc'"
        using Fn by auto
      have np: "nat p = Suc (nat c)" using p c0 by simp
      have "nat p \<le> k \<or> D < k" if "reachw bs t k s'" for k
      proof (rule ccontr)
        assume "\<not> (nat p \<le> k \<or> D < k)"
        then have "int k \<le> c" "k \<le> D" using np c0 by linarith+
        then have "s' \<in> S" using a4 that by blast
        then show False using sN N by blast
      qed
      then show ?thesis using sN p co rN[OF sN] np by simp
    qed
  qed
  have n2: "\<forall>s' \<in> S \<union> N. \<exists>k. reachw bs t k s'" using a2 rN by blast
  have n3: "\<forall>s' \<in> S \<union> N. s' \<notin> fst ` (R \<union> Fn) \<longrightarrow>
        s' \<noteq> t \<and>
        (\<forall>k < D. reachw bs t k s' \<longrightarrow>
           (\<forall>b \<in> set bs. \<forall>s''. apply_button t b s' = Inr (Some s'') \<longrightarrow> s'' \<in> S \<union> N))"
  proof (intro ballI impI)
    fix s' assume a: "s' \<in> S \<union> N" "s' \<notin> fst ` (R \<union> Fn)"
    then have "s' \<notin> N" using NF by auto
    then have sS: "s' \<in> S" using a by simp
    have sR: "s' \<notin> fst ` R" using a by auto
    show "s' \<noteq> t \<and>
        (\<forall>k < D. reachw bs t k s' \<longrightarrow>
           (\<forall>b \<in> set bs. \<forall>s''. apply_button t b s' = Inr (Some s'') \<longrightarrow> s'' \<in> S \<union> N))"
    proof (cases "s' = s")
      case True
      have "s'' \<in> S \<union> N"
        if "k < D" "reachw bs t k s" "b \<in> set bs" "apply_button t b s = Inr (Some s'')" for k b s''
      proof -
        have "nat c < D" using ms[OF that(2)] that(1) by auto
        from full[OF this] that(3,4) show ?thesis by blast
      qed
      then show ?thesis using True nt by blast
    next
      case False
      then have "s' \<notin> fst ` insert (s, c, pc) R" using sR by auto
      then show ?thesis using a3 sS by blast
    qed
  qed
  have n4: "\<forall>k s. reachw bs t k s \<longrightarrow> int k \<le> c \<longrightarrow> k \<le> D \<longrightarrow> s \<in> S \<union> N" using a4 by blast
  show ?thesis unfolding search_inv_def by (intro conjI c0 n1 n2 n3 n4)
qed

lemma search_inv_empty_levels:
  assumes wf: "well_formed_machine bs t" and inv: "search_inv bs t cap D c {} S"
  shows "search_inv bs t cap D (c + int j) {} S"
proof (induction j)
  case 0
  then show ?case using inv by simp
next
  case (Suc j)
  have "c + int j + 1 = c + int (Suc j)" by simp
  with search_inv_level_up[OF wf Suc] show ?case by simp
qed

lemma search_inv_empty_seen:
  assumes wf: "well_formed_machine bs t" and inv: "search_inv bs t cap D c {} S"
    and r: "reachw bs t k s" and k: "k \<le> D"
  shows "s \<in> S \<and> s \<noteq> t"
proof -
  have "search_inv bs t cap D (c + int k) {} S" by (rule search_inv_empty_levels[OF wf inv])
  moreover have "0 \<le> c" using inv by (simp add: search_inv_def)
  ultimately have "s \<in> S" using r k unfolding search_inv_def by auto
  moreover have "\<forall>s \<in> S. s \<noteq> t" using inv unfolding search_inv_def by auto
  ultimately show ?thesis by blast
qed

subsection \<open>One pass over the buttons\<close>

lemma pass_adds_Nil: "pass_adds t cap [] k cur p pc V []"
  by (simp add: pass_adds_def)

lemma pass_item_shift:
  assumes "\<exists>i < length bs. pc ! (Suc k + i) < cap \<and> pc' = pc[Suc k + i := pc ! (Suc k + i) + 1] \<and>
           apply_button t (bs ! i) cur = Inr (Some s')"
  shows "\<exists>i < length (b # bs). pc ! (k + i) < cap \<and> pc' = pc[k + i := pc ! (k + i) + 1] \<and>
           apply_button t ((b # bs) ! i) cur = Inr (Some s')"
proof -
  from assms obtain i where "i < length bs" "pc ! (Suc k + i) < cap"
    "pc' = pc[Suc k + i := pc ! (Suc k + i) + 1]" "apply_button t (bs ! i) cur = Inr (Some s')"
    by blast
  then have "Suc i < length (b # bs) \<and> pc ! (k + Suc i) < cap \<and>
      pc' = pc[k + Suc i := pc ! (k + Suc i) + 1] \<and>
      apply_button t ((b # bs) ! Suc i) cur = Inr (Some s')" by simp
  then show ?thesis by blast
qed

lemma pass_adds_skip:
  assumes P: "pass_adds t cap bs (Suc k) cur p pc V news"
    and h: "\<And>s'. pc ! k < cap \<Longrightarrow> apply_button t b cur = Inr (Some s') \<Longrightarrow>
              s' \<in> V \<union> fst ` set news"
  shows "pass_adds t cap (b # bs) k cur p pc V news"
  unfolding pass_adds_def
proof (intro conjI)
  note P' = P[unfolded pass_adds_def]
  show "fst ` set news \<inter> V = {}" using P' by (elim conjE)
  show "length news \<le> length (b # bs)" using P' by simp
  have p2: "\<forall>(s', p', pc') \<in> set news.
        p' = p + 1 \<and>
        (\<exists>i < length bs. pc ! (Suc k + i) < cap \<and> pc' = pc[Suc k + i := pc ! (Suc k + i) + 1] \<and>
           apply_button t (bs ! i) cur = Inr (Some s'))" using P' by (elim conjE)
  show "\<forall>(s', p', pc') \<in> set news.
        p' = p + 1 \<and>
        (\<exists>i < length (b # bs). pc ! (k + i) < cap \<and> pc' = pc[k + i := pc ! (k + i) + 1] \<and>
           apply_button t ((b # bs) ! i) cur = Inr (Some s'))"
  proof (clarify)
    fix s' p' pc' assume "(s', p', pc') \<in> set news"
    with p2 have "p' = p + 1" and
      "\<exists>i < length bs. pc ! (Suc k + i) < cap \<and> pc' = pc[Suc k + i := pc ! (Suc k + i) + 1] \<and>
           apply_button t (bs ! i) cur = Inr (Some s')" by blast+
    then show "p' = p + 1 \<and>
        (\<exists>i < length (b # bs). pc ! (k + i) < cap \<and> pc' = pc[k + i := pc ! (k + i) + 1] \<and>
           apply_button t ((b # bs) ! i) cur = Inr (Some s'))"
      using pass_item_shift by blast
  qed
  have p3: "\<forall>i < length bs. pc ! (Suc k + i) < cap \<longrightarrow>
        (\<forall>s'. apply_button t (bs ! i) cur = Inr (Some s') \<longrightarrow> s' \<in> V \<union> fst ` set news)"
    using P' by (elim conjE)
  show "\<forall>i < length (b # bs). pc ! (k + i) < cap \<longrightarrow>
        (\<forall>s'. apply_button t ((b # bs) ! i) cur = Inr (Some s') \<longrightarrow> s' \<in> V \<union> fst ` set news)"
  proof (intro allI impI)
    fix i s' assume i: "i < length (b # bs)" and c: "pc ! (k + i) < cap"
      and a: "apply_button t ((b # bs) ! i) cur = Inr (Some s')"
    show "s' \<in> V \<union> fst ` set news"
    proof (cases i)
      case 0
      then show ?thesis using h c a by simp
    next
      case (Suc i')
      then show ?thesis using p3 i c a by simp
    qed
  qed
qed

lemma pass_adds_push:
  assumes P: "pass_adds t cap bs (Suc k) cur p pc (insert ns V) news"
    and c: "pc ! k < cap" and a: "apply_button t b cur = Inr (Some ns)" and nv: "ns \<notin> V"
  shows "pass_adds t cap (b # bs) k cur p pc V ((ns, p + 1, pc[k := pc ! k + 1]) # news)"
  unfolding pass_adds_def
proof (intro conjI)
  let ?news = "(ns, p + 1, pc[k := pc ! k + 1]) # news"
  note P' = P[unfolded pass_adds_def]
  have d: "fst ` set news \<inter> insert ns V = {}" using P' by (elim conjE)
  then show "fst ` set ?news \<inter> V = {}" using nv by auto
  show "length ?news \<le> length (b # bs)" using P' by simp
  have p2: "\<forall>(s', p', pc') \<in> set news.
        p' = p + 1 \<and>
        (\<exists>i < length bs. pc ! (Suc k + i) < cap \<and> pc' = pc[Suc k + i := pc ! (Suc k + i) + 1] \<and>
           apply_button t (bs ! i) cur = Inr (Some s'))" using P' by (elim conjE)
  show "\<forall>(s', p', pc') \<in> set ?news.
        p' = p + 1 \<and>
        (\<exists>i < length (b # bs). pc ! (k + i) < cap \<and> pc' = pc[k + i := pc ! (k + i) + 1] \<and>
           apply_button t ((b # bs) ! i) cur = Inr (Some s'))"
  proof (clarify)
    fix s' p' pc' assume "(s', p', pc') \<in> set ?news"
    then consider "s' = ns" "p' = p + 1" "pc' = pc[k := pc ! k + 1]" | "(s', p', pc') \<in> set news"
      by auto
    then show "p' = p + 1 \<and>
        (\<exists>i < length (b # bs). pc ! (k + i) < cap \<and> pc' = pc[k + i := pc ! (k + i) + 1] \<and>
           apply_button t ((b # bs) ! i) cur = Inr (Some s'))"
    proof cases
      case 1
      then have "0 < length (b # bs) \<and> pc ! (k + 0) < cap \<and> pc' = pc[k + 0 := pc ! (k + 0) + 1] \<and>
           apply_button t ((b # bs) ! 0) cur = Inr (Some s')" using c a by simp
      then show ?thesis using 1 by blast
    next
      case 2
      with p2 have "p' = p + 1" and
        "\<exists>i < length bs. pc ! (Suc k + i) < cap \<and> pc' = pc[Suc k + i := pc ! (Suc k + i) + 1] \<and>
           apply_button t (bs ! i) cur = Inr (Some s')" by blast+
      then show ?thesis using pass_item_shift by blast
    qed
  qed
  have p3: "\<forall>i < length bs. pc ! (Suc k + i) < cap \<longrightarrow>
        (\<forall>s'. apply_button t (bs ! i) cur = Inr (Some s') \<longrightarrow> s' \<in> insert ns V \<union> fst ` set news)"
    using P' by (elim conjE)
  show "\<forall>i < length (b # bs). pc ! (k + i) < cap \<longrightarrow>
        (\<forall>s'. apply_button t ((b # bs) ! i) cur = Inr (Some s') \<longrightarrow> s' \<in> V \<union> fst ` set ?news)"
  proof (intro allI impI)
    fix i s' assume i: "i < length (b # bs)" and ci: "pc ! (k + i) < cap"
      and ai: "apply_button t ((b # bs) ! i) cur = Inr (Some s')"
    show "s' \<in> V \<union> fst ` set ?news"
    proof (cases i)
      case 0
      then show ?thesis using a ai by simp
    next
      case (Suc i')
      then have "s' \<in> insert ns V \<union> fst ` set news" using p3 i ci ai by simp
      then show ?thesis by auto
    qed
  qed
qed

lemma try_buttons_bounded_spec:
  assumes "\<forall>b \<in> set bs. \<exists>r. apply_button t b cur = Inr r"
  shows "\<exists>news. try_buttons_bounded t cap bs k cur p pc (q, V) = Inr (q @ news, V \<union> fst ` set news)
     \<and> pass_adds t cap bs k cur p pc V news"
  using assms
proof (induction bs arbitrary: k q V)
  case Nil
  then show ?case using pass_adds_Nil by simp
next
  case (Cons b bs)
  have nf: "\<forall>b \<in> set bs. \<exists>r. apply_button t b cur = Inr r" using Cons.prems by simp
  obtain r where r: "apply_button t b cur = Inr r" using Cons.prems by auto
  have same: "\<exists>news. try_buttons_bounded t cap (b # bs) k cur p pc (q, V)
        = Inr (q @ news, V \<union> fst ` set news) \<and> pass_adds t cap (b # bs) k cur p pc V news"
    if eq: "try_buttons_bounded t cap (b # bs) k cur p pc (q, V)
        = try_buttons_bounded t cap bs (Suc k) cur p pc (q, V)"
      and h: "\<And>s'. pc ! k < cap \<Longrightarrow> apply_button t b cur = Inr (Some s') \<Longrightarrow> s' \<in> V"
  proof -
    from Cons.IH[OF nf, of "Suc k" q V] obtain news where
      n: "try_buttons_bounded t cap bs (Suc k) cur p pc (q, V) = Inr (q @ news, V \<union> fst ` set news)"
      and P: "pass_adds t cap bs (Suc k) cur p pc V news" by blast
    have "pass_adds t cap (b # bs) k cur p pc V news"
      using P h by (intro pass_adds_skip) auto
    then show ?thesis using n eq by auto
  qed
  show ?case
  proof (cases "pc ! k \<ge> cap")
    case True
    then show ?thesis by (intro same) simp_all
  next
    case below: False
    show ?thesis
    proof (cases r)
      case None
      then show ?thesis using r below by (intro same) simp_all
    next
      case (Some ns)
      show ?thesis
      proof (cases "ns \<in> V")
        case True
        then show ?thesis using r Some below by (intro same) (simp_all add: Let_def)
      next
        case False
        let ?item = "(ns, p + 1, pc[k := pc ! k + 1])"
        from Cons.IH[OF nf, of "Suc k" "q @ [?item]" "insert ns V"] obtain news where
          n: "try_buttons_bounded t cap bs (Suc k) cur p pc (q @ [?item], insert ns V)
              = Inr ((q @ [?item]) @ news, insert ns V \<union> fst ` set news)"
          and P: "pass_adds t cap bs (Suc k) cur p pc (insert ns V) news" by blast
        have "try_buttons_bounded t cap (b # bs) k cur p pc (q, V)
            = Inr (q @ (?item # news), V \<union> fst ` set (?item # news))"
          using n r Some False below by (simp add: Let_def)
        moreover have "pass_adds t cap (b # bs) k cur p pc V (?item # news)"
          using P below r Some False by (intro pass_adds_push) simp_all
        ultimately show ?thesis by blast
      qed
    qed
  qed
qed

lemma try_buttons_dijkstra_spec:
  assumes "\<forall>b \<in> set bs. \<exists>r. apply_button t b cur = Inr r"
    and "cost < INT_MAX"
    and "\<forall>s v. M s = Some v \<longrightarrow> v \<le> cost + 1"
  shows "\<exists>news pq' M'.
     try_buttons_dijkstra t cap bs k cur cost pc (pq, M) = Inr (pq', M') \<and>
     pass_adds t cap bs k cur cost pc (dom M) news \<and>
     set pq' = set pq \<union> (\<lambda>(s, p, pc). (p, s, pc)) ` set news \<and>
     length pq' = length pq + length news \<and>
     (sorted pq \<longrightarrow> sorted pq') \<and>
     (\<forall>s. M' s = (if s \<in> dom M then M s
                   else if s \<in> fst ` set news then Some (cost + 1) else None))"
  using assms
proof (induction bs arbitrary: k pq M)
  case Nil
  then show ?case using pass_adds_Nil[of t cap k cur cost pc "dom M"] by (auto simp: domIff)
next
  case (Cons b bs)
  have nf: "\<forall>b \<in> set bs. \<exists>r. apply_button t b cur = Inr r" using Cons.prems(1) by simp
  note lt = Cons.prems(2)
  note vals = Cons.prems(3)
  obtain r where r: "apply_button t b cur = Inr r" using Cons.prems(1) by auto
  have same: "\<exists>news pq' M'.
     try_buttons_dijkstra t cap (b # bs) k cur cost pc (pq, M) = Inr (pq', M') \<and>
     pass_adds t cap (b # bs) k cur cost pc (dom M) news \<and>
     set pq' = set pq \<union> (\<lambda>(s, p, pc). (p, s, pc)) ` set news \<and>
     length pq' = length pq + length news \<and>
     (sorted pq \<longrightarrow> sorted pq') \<and>
     (\<forall>s. M' s = (if s \<in> dom M then M s
                   else if s \<in> fst ` set news then Some (cost + 1) else None))"
    if eq: "try_buttons_dijkstra t cap (b # bs) k cur cost pc (pq, M)
        = try_buttons_dijkstra t cap bs (Suc k) cur cost pc (pq, M)"
      and h: "\<And>s'. pc ! k < cap \<Longrightarrow> apply_button t b cur = Inr (Some s') \<Longrightarrow> s' \<in> dom M"
  proof -
    from Cons.IH[OF nf lt vals, of "Suc k" pq] obtain news pq' M' where
      n: "try_buttons_dijkstra t cap bs (Suc k) cur cost pc (pq, M) = Inr (pq', M')"
      and P: "pass_adds t cap bs (Suc k) cur cost pc (dom M) news"
      and rest: "set pq' = set pq \<union> (\<lambda>(s, p, pc). (p, s, pc)) ` set news"
        "length pq' = length pq + length news" "sorted pq \<longrightarrow> sorted pq'"
        "\<forall>s. M' s = (if s \<in> dom M then M s
                   else if s \<in> fst ` set news then Some (cost + 1) else None)"
      by blast
    have "pass_adds t cap (b # bs) k cur cost pc (dom M) news"
      using P h by (intro pass_adds_skip) auto
    then show ?thesis using n eq rest by auto
  qed
  show ?case
  proof (cases "pc ! k \<ge> cap")
    case True
    then show ?thesis by (intro same) simp_all
  next
    case below: False
    show ?thesis
    proof (cases r)
      case None
      then show ?thesis using r below by (intro same) simp_all
    next
      case (Some ns)
      show ?thesis
      proof (cases "M ns")
        case seen: (Some v)
        then have "v \<le> cost + 1" using vals by blast
        then have "\<not> (M ns = None \<or> cost + 1 < the (M ns))" using seen by simp
        then show ?thesis using r Some below lt seen
          by (intro same) (auto simp: Let_def)
      next
        case None
        let ?item = "(ns, cost + 1, pc[k := pc ! k + 1])"
        let ?pitem = "(cost + 1, ns, pc[k := pc ! k + 1])"
        let ?M1 = "M(ns \<mapsto> cost + 1)"
        have vals1: "\<forall>s v. ?M1 s = Some v \<longrightarrow> v \<le> cost + 1" using vals by auto
        from Cons.IH[OF nf lt vals1, of "Suc k" "insort ?pitem pq"] obtain news pq' M' where
          n: "try_buttons_dijkstra t cap bs (Suc k) cur cost pc (insort ?pitem pq, ?M1)
              = Inr (pq', M')"
          and P: "pass_adds t cap bs (Suc k) cur cost pc (dom ?M1) news"
          and st: "set pq' = set (insort ?pitem pq) \<union> (\<lambda>(s, p, pc). (p, s, pc)) ` set news"
          and ln: "length pq' = length (insort ?pitem pq) + length news"
          and so: "sorted (insort ?pitem pq) \<longrightarrow> sorted pq'"
          and M': "\<forall>s. M' s = (if s \<in> dom ?M1 then ?M1 s
                   else if s \<in> fst ` set news then Some (cost + 1) else None)"
          by blast
        have nd: "ns \<notin> dom M" using None by (simp add: domIff)
        have 1: "try_buttons_dijkstra t cap (b # bs) k cur cost pc (pq, M) = Inr (pq', M')"
          using n r Some None below lt by (simp add: Let_def)
        have 2: "pass_adds t cap (b # bs) k cur cost pc (dom M) (?item # news)"
          using P below r Some nd by (intro pass_adds_push) simp_all
        have 3: "set pq' = set pq \<union> (\<lambda>(s, p, pc). (p, s, pc)) ` set (?item # news)"
          using st by (auto simp: set_insort_key)
        have 4: "length pq' = length pq + length (?item # news)" using ln by simp
        have 5: "sorted pq \<longrightarrow> sorted pq'" using so by (simp add: sorted_insort)
        have 6: "\<forall>s. M' s = (if s \<in> dom M then M s
                   else if s \<in> fst ` set (?item # news) then Some (cost + 1) else None)"
        proof
          fix s
          show "M' s = (if s \<in> dom M then M s
                   else if s \<in> fst ` set (?item # news) then Some (cost + 1) else None)"
            using M'[rule_format, of s] nd by (cases "s = ns") (auto simp: domIff)
        qed
        show ?thesis using 1 2 3 4 5 6 by blast
      qed
    qed
  qed
qed

subsection \<open>A pass keeps the shared invariant\<close>

lemma search_inv_pass:
  assumes wf: "well_formed_machine bs t"
    and inv: "search_inv bs t cap D c (insert (s, c, pc) R) S"
    and nt: "s \<noteq> t"
    and D: "int D \<le> cap"
    and P: "pass_adds t cap bs 0 s c pc S news"
  shows "search_inv bs t cap D c (R \<union> set news) (S \<union> fst ` set news)"
proof (rule search_inv_step[OF wf inv nt])
  note P' = P[unfolded pass_adds_def]
  have d: "fst ` set news \<inter> S = {}" using P' by (elim conjE)
  have items: "\<forall>(s', p', pc') \<in> set news.
        p' = c + 1 \<and>
        (\<exists>i < length bs. pc ! (0 + i) < cap \<and> pc' = pc[0 + i := pc ! (0 + i) + 1] \<and>
           apply_button t (bs ! i) s = Inr (Some s'))" using P' by (elim conjE)
  have all: "\<forall>i < length bs. pc ! (0 + i) < cap \<longrightarrow>
        (\<forall>s'. apply_button t (bs ! i) s = Inr (Some s') \<longrightarrow> s' \<in> S \<union> fst ` set news)"
    using P' by (elim conjE)
  have co: "counts_ok (length bs) cap c pc" using inv unfolding search_inv_def by auto
  show "fst ` set news \<subseteq> {s'. \<exists>b \<in> set bs. apply_button t b s = Inr (Some s')} - S"
  proof
    fix s' assume a: "s' \<in> fst ` set news"
    then obtain p' pc' where "(s', p', pc') \<in> set news" by force
    with items obtain i where "i < length bs" "apply_button t (bs ! i) s = Inr (Some s')"
      by blast
    then have "\<exists>b \<in> set bs. apply_button t b s = Inr (Some s')" using nth_mem by blast
    then show "s' \<in> {s'. \<exists>b \<in> set bs. apply_button t b s = Inr (Some s')} - S"
      using a d by blast
  qed
  show "{s'. \<exists>b \<in> set bs. apply_button t b s = Inr (Some s')} - S \<subseteq> fst ` set news"
    if lt: "nat c < D"
  proof
    fix s' assume "s' \<in> {s'. \<exists>b \<in> set bs. apply_button t b s = Inr (Some s')} - S"
    then obtain b where b: "b \<in> set bs" "apply_button t b s = Inr (Some s')" and ns: "s' \<notin> S"
      by blast
    then obtain i where i: "i < length bs" "b = bs ! i" by (auto simp: in_set_conv_nth)
    have "pc ! i \<le> c" using counts_ok_below[OF co i(1)] .
    then have "pc ! (0 + i) < cap" using lt D by simp
    then have "s' \<in> S \<union> fst ` set news" using all i b by blast
    then show "s' \<in> fst ` set news" using ns by simp
  qed
  show "\<forall>(s', p', pc') \<in> set news.
      s' \<in> fst ` set news \<and> p' = c + 1 \<and> counts_ok (length bs) cap (c + 1) pc'"
  proof (clarify)
    fix s' p' pc' assume m: "(s', p', pc') \<in> set news"
    with items obtain i where "p' = c + 1" "i < length bs" "pc ! (0 + i) < cap"
      "pc' = pc[0 + i := pc ! (0 + i) + 1]" by blast
    then have "p' = c + 1" "counts_ok (length bs) cap (c + 1) pc'"
      using counts_ok_step[OF co, of i] by simp_all
    moreover have "s' \<in> fst ` set news" using m by force
    ultimately show "s' \<in> fst ` set news \<and> p' = c + 1 \<and> counts_ok (length bs) cap (c + 1) pc'"
      by simp
  qed
  show "fst ` set news \<subseteq> fst ` set news" by simp
qed

subsection \<open>The bounded search\<close>

lemma horizon_cap: "horizon bs t cap D \<Longrightarrow> 0 \<le> cap \<Longrightarrow> int D \<le> cap"
  by (auto simp: horizon_def)

lemma bounded_drain:
  assumes "int D \<noteq> INT_MAX"
  shows "\<forall>(s, p, pc) \<in> set q. int D \<le> p \<Longrightarrow>
     bounded_loop bs t cap (q, V, int D) = Some (Inr (int D))"
proof (induction q)
  case Nil
  show ?case using assms by (subst bounded_loop.simps) (simp add: bounded_step_def)
next
  case (Cons x q)
  obtain s p pc where x: "x = (s, p, pc)" by (cases x) auto
  have p: "int D \<le> p" using Cons.prems x by simp
  have "bounded_step bs t cap (x # q, V, int D) = Inr (q, V, int D)"
    using p x by (simp add: bounded_step_def min_def)
  then have "bounded_loop bs t cap (x # q, V, int D) = bounded_loop bs t cap (q, V, int D)"
    by (subst bounded_loop.simps) simp
  then show ?case using Cons by simp
qed

lemma bounded_loop_correct:
  assumes wf: "well_formed_machine bs t" and cap0: "0 \<le> cap"
    and capm: "cap * int (length bs) < INT_MAX"
    and hz: "horizon bs t cap D"
  shows "search_inv bs t cap D c (set q) V \<Longrightarrow> sorted (map (\<lambda>x. fst (snd x)) q) \<Longrightarrow>
     bounded_loop bs t cap (q, V, INT_MAX)
       = Some (Inr (if \<exists>k. reachw bs t k t then int D else - 1))"
proof (induction "card ({s. within_targets t s} - V) * Suc (length bs) + length q"
    arbitrary: q V c rule: less_induct)
  case less
  let ?B = "{s. within_targets t s}"
  let ?res = "if \<exists>k. reachw bs t k t then int D else - 1"
  note inv = less.prems(1) and srt = less.prems(2)
  have Dcap: "int D \<le> cap" using hz cap0 by (rule horizon_cap)
  show ?case
  proof (cases q)
    case Nil
    have "\<not> (\<exists>k. reachw bs t k t)"
    proof
      assume "\<exists>k. reachw bs t k t"
      then have "reachw bs t D t" using hz by (auto simp: horizon_def)
      from search_inv_empty_seen[OF wf inv[unfolded Nil, simplified] this] show False by simp
    qed
    moreover have "bounded_loop bs t cap ([], V, INT_MAX) = Some (Inr (- 1))"
      by (subst bounded_loop.simps) (simp add: bounded_step_def)
    ultimately show ?thesis using Nil by simp
  next
    case (Cons x q')
    obtain s p pc where x: "x = (s, p, pc)" by (cases x) auto
    have xq: "(s, p, pc) \<in> set q" using Cons x by simp
    note I = inv[unfolded search_inv_def]
    have c0: "0 \<le> c" using I by (elim conjE)
    have a1: "\<forall>(s, p, pc) \<in> set q.
        s \<in> V \<and> c \<le> p \<and> p \<le> c + 1 \<and> reachw bs t (nat p) s \<and>
        counts_ok (length bs) cap p pc \<and>
        (\<forall>k. reachw bs t k s \<longrightarrow> nat p \<le> k \<or> D < k)" using I by (elim conjE)
    have sV: "s \<in> V" and cp: "c \<le> p" "p \<le> c + 1" and rs: "reachw bs t (nat p) s"
      and co: "counts_ok (length bs) cap p pc"
      and ms: "\<And>k. reachw bs t k s \<Longrightarrow> nat p \<le> k \<or> D < k"
      using a1 xq by auto
    have lo: "p \<le> p'" if "(s', p', pc') \<in> set q" for s' p' pc'
    proof -
      have "p' \<in> set (map (\<lambda>x. fst (snd x)) q)" using that by force
      then have "hd (map (\<lambda>x. fst (snd x)) q) \<le> p'" by (rule sorted_hd_le[OF srt])
      then show ?thesis using Cons x by simp
    qed
    have invp: "search_inv bs t cap D p (set q) V"
    proof (cases "p = c")
      case True
      then show ?thesis using inv by simp
    next
      case False
      then have pc1: "p = c + 1" using cp by simp
      have "\<forall>(s', p', pc') \<in> set q. p' = c + 1"
      proof (clarify)
        fix s' p' pc' assume m: "(s', p', pc') \<in> set q"
        then have "p' \<le> c + 1" using a1 by blast
        then show "p' = c + 1" using lo[OF m] pc1 by simp
      qed
      from search_inv_level_up[OF wf inv this] pc1 show ?thesis by simp
    qed
    have pmax: "p < INT_MAX" using counts_ok_bound[OF co] capm by simp
    have p0: "0 \<le> p" using c0 cp by simp
    show ?thesis
    proof (cases "s = t")
      case True
      then have ex: "\<exists>k. reachw bs t k t" using rs by blast
      then have hD: "reachw bs t D t" "\<And>k. reachw bs t k t \<Longrightarrow> D \<le> k"
        using hz by (auto simp: horizon_def)
      have "nat p \<le> D" using ms[of D] hD(1) True by auto
      moreover have "D \<le> nat p" using hD(2) rs True by simp
      ultimately have pD: "p = int D" using p0 by simp
      have "bounded_step bs t cap (q, V, INT_MAX) = Inr (q', V, int D)"
        using Cons x True pD pmax by (simp add: bounded_step_def min_def)
      then have "bounded_loop bs t cap (q, V, INT_MAX) = bounded_loop bs t cap (q', V, int D)"
        by (subst bounded_loop.simps) simp
      moreover have "bounded_loop bs t cap (q', V, int D) = Some (Inr (int D))"
      proof (rule bounded_drain)
        show "int D \<noteq> INT_MAX" using pD pmax by simp
        show "\<forall>(s, p, pc) \<in> set q'. int D \<le> p"
          using lo pD Cons by auto
      qed
      ultimately show ?thesis using ex by simp
    next
      case False
      have ws: "within_targets t s" using rs by (rule reachw_within)
      have nf: "\<forall>b \<in> set bs. \<exists>r. apply_button t b s = Inr r"
        using apply_button_no_fault[OF wf _ ws] by blast
      from try_buttons_bounded_spec[OF nf, of cap 0 p pc q' V] obtain news where
        tb: "try_buttons_bounded t cap bs 0 s p pc (q', V) = Inr (q' @ news, V \<union> fst ` set news)"
        and P: "pass_adds t cap bs 0 s p pc V news" by blast
      let ?N = "fst ` set news"
      have st: "bounded_step bs t cap (q, V, INT_MAX) = Inr (q' @ news, V \<union> ?N, INT_MAX)"
        using Cons x False pmax tb by (simp add: bounded_step_def)
      have step: "bounded_loop bs t cap (q, V, INT_MAX)
          = bounded_loop bs t cap (q' @ news, V \<union> ?N, INT_MAX)"
        by (subst bounded_loop.simps) (simp add: st)
      have invx: "search_inv bs t cap D p (insert (s, p, pc) (set q')) V"
        using invp Cons x by simp
      have inv': "search_inv bs t cap D p (set (q' @ news)) (V \<union> ?N)"
        using search_inv_pass[OF wf invx False Dcap P] by simp
      note P' = P[unfolded pass_adds_def]
      have d: "?N \<inter> V = {}" using P' by (elim conjE)
      have ln: "length news \<le> length bs" using P' by (elim conjE)
      have items: "\<forall>(s', p', pc') \<in> set news.
        p' = p + 1 \<and>
        (\<exists>i < length bs. pc ! (0 + i) < cap \<and> pc' = pc[0 + i := pc ! (0 + i) + 1] \<and>
           apply_button t (bs ! i) s = Inr (Some s'))" using P' by (elim conjE)
      have cost_news: "map (\<lambda>x. fst (snd x)) news = replicate (length news) (p + 1)"
      proof (rule nth_equalityI)
        show "length (map (\<lambda>x. fst (snd x)) news) = length (replicate (length news) (p + 1))"
          by simp
        fix i assume "i < length (map (\<lambda>x. fst (snd x)) news)"
        then have i: "i < length news" by simp
        then have m: "news ! i \<in> set news" by simp
        obtain s' p' pc' where y: "news ! i = (s', p', pc')" by (cases "news ! i") auto
        have "p' = p + 1" using items m unfolding y by blast
        then have "fst (snd (news ! i)) = p + 1" using y by simp
        then show "map (\<lambda>x. fst (snd x)) news ! i = replicate (length news) (p + 1) ! i"
          using i by simp
      qed
      have a1p: "\<forall>(s', p', pc') \<in> set q. p' \<le> p + 1"
        using invp unfolding search_inv_def by fastforce
      have srt': "sorted (map (\<lambda>x. fst (snd x)) (q' @ news))"
      proof -
        have "sorted (map (\<lambda>x. fst (snd x)) q')" using srt Cons by simp
        moreover have "\<forall>y \<in> set (map (\<lambda>x. fst (snd x)) q'). y \<le> p + 1"
          using a1p Cons by fastforce
        ultimately show ?thesis by (auto simp: sorted_append cost_news)
      qed
      have finB: "finite ?B" by (rule finite_within_targets)
      have NB: "?N \<subseteq> ?B - V"
      proof
        fix s' assume a: "s' \<in> ?N"
        then have "\<exists>k. reachw bs t k s'" using inv' unfolding search_inv_def by blast
        then have "within_targets t s'" using reachw_within by blast
        then show "s' \<in> ?B - V" using a d by blast
      qed
      have less': "card (?B - (V \<union> ?N)) * Suc (length bs) + length (q' @ news)
          < card (?B - V) * Suc (length bs) + length q"
      proof (cases "news = []")
        case True
        then show ?thesis using Cons by simp
      next
        case ne: False
        then obtain y where y: "y \<in> ?N" by (cases news) auto
        have "y \<in> ?B - V" "y \<notin> ?B - (V \<union> ?N)" using NB y by auto
        moreover have "?B - (V \<union> ?N) \<subseteq> ?B - V" by auto
        ultimately have "?B - (V \<union> ?N) \<subset> ?B - V" by blast
        then have "card (?B - (V \<union> ?N)) < card (?B - V)"
          using finB by (intro psubset_card_mono) auto
        then have "Suc (card (?B - (V \<union> ?N))) * Suc (length bs) \<le> card (?B - V) * Suc (length bs)"
          by (intro mult_le_mono1) simp
        then show ?thesis using ln Cons by simp
      qed
      show ?thesis using less.hyps[OF less' inv' srt'] step by simp
    qed
  qed
qed

lemma bounded_solver_correct:
  assumes wf: "well_formed_machine bs t" and cap0: "0 \<le> cap"
    and capm: "cap * int (length bs) < INT_MAX"
    and hz: "horizon bs t cap D"
  shows "solve_machine_part2_bounded bs t cap
       = Some (Inr (if \<exists>k. reachw bs t k t then int D else - 1))"
proof -
  have "search_inv bs t cap D 0
     (set [(replicate (length t) 0, 0, replicate (length bs) 0)]) {replicate (length t) 0}"
    using search_inv_init[OF wf cap0] by simp
  from bounded_loop_correct[OF wf cap0 capm hz this]
  show ?thesis by (simp add: solve_machine_part2_bounded_def bounded_init_def Let_def)
qed

subsection \<open>The Dijkstra search\<close>

lemma pq_item_state_image:
  "pq_item_state ` (\<lambda>(s, p, pc). (p, s, pc)) ` A = A"
  by (force simp: pq_item_state_def image_iff split: prod.splits)

lemma pq_item_state_simp [simp]: "pq_item_state (p, s, pc) = (s, p, pc)"
  by (simp add: pq_item_state_def)

lemma dijkstra_loop_correct:
  assumes wf: "well_formed_machine bs t" and cap0: "0 \<le> cap"
    and capm: "cap * int (length bs) < INT_MAX"
    and hz: "horizon bs t cap D"
  shows "search_inv bs t cap D c (pq_item_state ` set pq) (dom M) \<Longrightarrow> sorted pq \<Longrightarrow>
     \<forall>(p, s, pc) \<in> set pq. M s = Some p \<Longrightarrow> \<forall>s v. M s = Some v \<longrightarrow> v \<le> c + 1 \<Longrightarrow>
     dijkstra_loop bs t cap (pq, M)
       = Some (Inr (if \<exists>k. reachw bs t k t then int D else - 1))"
proof (induction "card ({s. within_targets t s} - dom M) * Suc (length bs) + length pq"
    arbitrary: pq M c rule: less_induct)
  case less
  let ?B = "{s. within_targets t s}"
  note inv = less.prems(1) and srt = less.prems(2) and cur = less.prems(3)
    and ub = less.prems(4)
  have Dcap: "int D \<le> cap" using hz cap0 by (rule horizon_cap)
  show ?case
  proof (cases pq)
    case Nil
    have "\<not> (\<exists>k. reachw bs t k t)"
    proof
      assume "\<exists>k. reachw bs t k t"
      then have "reachw bs t D t" using hz by (auto simp: horizon_def)
      from search_inv_empty_seen[OF wf inv[unfolded Nil, simplified] this] show False by simp
    qed
    moreover have "dijkstra_loop bs t cap ([], M) = Some (Inr (- 1))"
      by (subst dijkstra_loop.simps) (simp add: dijkstra_step_def)
    ultimately show ?thesis using Nil by simp
  next
    case (Cons x pq')
    obtain p s pc where x: "x = (p, s, pc)" by (cases x) auto
    let ?F = "pq_item_state ` set pq"
    have xq: "(s, p, pc) \<in> ?F" using Cons x by force
    have Fset: "?F = insert (s, p, pc) (pq_item_state ` set pq')" using Cons x by simp
    note I = inv[unfolded search_inv_def]
    have c0: "0 \<le> c" using I by (elim conjE)
    have a1: "\<forall>(s, p, pc) \<in> ?F.
        s \<in> dom M \<and> c \<le> p \<and> p \<le> c + 1 \<and> reachw bs t (nat p) s \<and>
        counts_ok (length bs) cap p pc \<and>
        (\<forall>k. reachw bs t k s \<longrightarrow> nat p \<le> k \<or> D < k)" using I by (elim conjE)
    have cp: "c \<le> p" "p \<le> c + 1" and rs: "reachw bs t (nat p) s"
      and co: "counts_ok (length bs) cap p pc"
      and ms: "\<And>k. reachw bs t k s \<Longrightarrow> nat p \<le> k \<or> D < k"
      using bspec[OF a1 xq] by auto
    have Ms: "M s = Some p" using cur Cons x by simp
    have lo: "p \<le> p'" if "(s', p', pc') \<in> ?F" for s' p' pc'
    proof -
      have "(p', s', pc') \<in> set pq" using that by (force simp: pq_item_state_def)
      then have "hd pq \<le> (p', s', pc')" by (rule sorted_hd_le[OF srt])
      then show ?thesis using Cons x by (auto simp: less_eq_prod_def)
    qed
    have invp: "search_inv bs t cap D p ?F (dom M)"
    proof (cases "p = c")
      case True
      then show ?thesis using inv by simp
    next
      case False
      then have pc1: "p = c + 1" using cp by simp
      have "\<forall>(s', p', pc') \<in> ?F. p' = c + 1"
      proof
        fix y assume yF: "y \<in> ?F"
        obtain s' p' pc' where y: "y = (s', p', pc')" by (cases y) auto
        have m: "(s', p', pc') \<in> ?F" using yF y by simp
        then have "p' \<le> c + 1" using a1 by blast
        then have "p' = c + 1" using lo[OF m] pc1 by simp
        then show "case y of (s', p', pc') \<Rightarrow> p' = c + 1" using y by simp
      qed
      from search_inv_level_up[OF wf inv this] pc1 show ?thesis by simp
    qed
    have pmax: "p < INT_MAX" using counts_ok_bound[OF co] capm by simp
    have p0: "0 \<le> p" using c0 cp by simp
    show ?thesis
    proof (cases "s = t")
      case True
      then have ex: "\<exists>k. reachw bs t k t" using rs by blast
      then have hD: "reachw bs t D t" "\<And>k. reachw bs t k t \<Longrightarrow> D \<le> k"
        using hz by (auto simp: horizon_def)
      have "nat p \<le> D" using ms[of D] hD(1) True by auto
      moreover have "D \<le> nat p" using hD(2) rs True by simp
      ultimately have pD: "p = int D" using p0 by simp
      have "dijkstra_step bs t cap (pq, M) = Inl (Inr (int D))"
        using Cons x True pD Ms by (simp add: dijkstra_step_def)
      then have "dijkstra_loop bs t cap (pq, M) = Some (Inr (int D))"
        by (subst dijkstra_loop.simps) simp
      then show ?thesis using ex by simp
    next
      case False
      have ws: "within_targets t s" using rs by (rule reachw_within)
      have nf: "\<forall>b \<in> set bs. \<exists>r. apply_button t b s = Inr r"
        using apply_button_no_fault[OF wf _ ws] by blast
      have ub': "\<forall>s v. M s = Some v \<longrightarrow> v \<le> p + 1" using ub cp by fastforce
      from try_buttons_dijkstra_spec[OF nf pmax ub', of cap 0 pc pq'] obtain news pq'' M' where
        tb: "try_buttons_dijkstra t cap bs 0 s p pc (pq', M) = Inr (pq'', M')"
        and P: "pass_adds t cap bs 0 s p pc (dom M) news"
        and sq: "set pq'' = set pq' \<union> (\<lambda>(s, p, pc). (p, s, pc)) ` set news"
        and lq: "length pq'' = length pq' + length news"
        and so: "sorted pq' \<longrightarrow> sorted pq''"
        and M': "\<forall>s. M' s = (if s \<in> dom M then M s
                    else if s \<in> fst ` set news then Some (p + 1) else None)"
        by blast
      let ?N = "fst ` set news"
      have st: "dijkstra_step bs t cap (pq, M) = Inr (pq'', M')"
        using Cons x False Ms tb by (simp add: dijkstra_step_def)
      have step: "dijkstra_loop bs t cap (pq, M) = dijkstra_loop bs t cap (pq'', M')"
        by (subst dijkstra_loop.simps) (simp add: st)
      have domM': "dom M' = dom M \<union> ?N"
      proof (rule set_eqI)
        fix y show "y \<in> dom M' \<longleftrightarrow> y \<in> dom M \<union> ?N"
          using M'[rule_format, of y] by (auto simp: domIff split: if_splits)
      qed
      have F': "pq_item_state ` set pq'' = pq_item_state ` set pq' \<union> set news"
        unfolding sq image_Un pq_item_state_image ..
      have invx: "search_inv bs t cap D p (insert (s, p, pc) (pq_item_state ` set pq')) (dom M)"
        using invp Fset by simp
      have inv': "search_inv bs t cap D p (pq_item_state ` set pq'') (dom M')"
        using search_inv_pass[OF wf invx False Dcap P] unfolding F' domM' .
      note P' = P[unfolded pass_adds_def]
      have d: "?N \<inter> dom M = {}" using P' by (elim conjE)
      have ln: "length news \<le> length bs" using P' by (elim conjE)
      have items: "\<forall>(s', p', pc') \<in> set news.
        p' = p + 1 \<and>
        (\<exists>i < length bs. pc ! (0 + i) < cap \<and> pc' = pc[0 + i := pc ! (0 + i) + 1] \<and>
           apply_button t (bs ! i) s = Inr (Some s'))" using P' by (elim conjE)
      have srt': "sorted pq''" using so srt Cons by simp
      have cur': "\<forall>(p', s', pc') \<in> set pq''. M' s' = Some p'"
      proof (clarify)
        fix p' s' pc' assume "(p', s', pc') \<in> set pq''"
        then consider "(p', s', pc') \<in> set pq'" | "(s', p', pc') \<in> set news"
          unfolding sq by auto
        then show "M' s' = Some p'"
        proof cases
          case 1
          then have "M s' = Some p'" using cur Cons by auto
          then show ?thesis using M'[rule_format, of s'] by (simp add: domIff)
        next
          case 2
          then have "p' = p + 1" using items by blast
          moreover have "s' \<in> ?N" using 2 by force
          moreover have "s' \<notin> dom M" using d \<open>s' \<in> ?N\<close> by blast
          ultimately show ?thesis using M'[rule_format, of s'] by simp
        qed
      qed
      have ub'': "\<forall>s v. M' s = Some v \<longrightarrow> v \<le> p + 1"
      proof (intro allI impI)
        fix y v assume "M' y = Some v"
        then show "v \<le> p + 1"
          using M'[rule_format, of y] ub' by (auto simp: domIff split: if_splits)
      qed
      have finB: "finite ?B" by (rule finite_within_targets)
      have NB: "?N \<subseteq> ?B - dom M"
      proof
        fix s' assume a: "s' \<in> ?N"
        then have "s' \<in> dom M'" using domM' by simp
        then have "\<exists>k. reachw bs t k s'" using inv' unfolding search_inv_def by blast
        then have "within_targets t s'" using reachw_within by blast
        then show "s' \<in> ?B - dom M" using a d by blast
      qed
      have less': "card (?B - dom M') * Suc (length bs) + length pq''
          < card (?B - dom M) * Suc (length bs) + length pq"
      proof (cases "news = []")
        case True
        then show ?thesis using Cons lq domM' by simp
      next
        case ne: False
        then obtain y where y: "y \<in> ?N" by (cases news) auto
        have "y \<in> ?B - dom M" "y \<notin> ?B - dom M'" using NB y domM' by auto
        moreover have "?B - dom M' \<subseteq> ?B - dom M" using domM' by auto
        ultimately have "?B - dom M' \<subset> ?B - dom M" by blast
        then have "card (?B - dom M') < card (?B - dom M)"
          using finB by (intro psubset_card_mono) auto
        then have "Suc (card (?B - dom M')) * Suc (length bs) \<le> card (?B - dom M) * Suc (length bs)"
          by (intro mult_le_mono1) simp
        then show ?thesis using ln lq Cons by simp
      qed
      show ?thesis using less.hyps[OF less' inv' srt' cur' ub''] step by simp
    qed
  qed
qed

lemma dijkstra_solver_correct:
  assumes wf: "well_formed_machine bs t" and cap0: "0 \<le> cap"
    and capm: "cap * int (length bs) < INT_MAX"
    and hz: "horizon bs t cap D"
  shows "solve_machine_part2_dijkstra bs t cap
       = Some (Inr (if \<exists>k. reachw bs t k t then int D else - 1))"
proof -
  let ?z = "replicate (length t) (0::int)"
  let ?pq = "[(0::int, ?z, replicate (length bs) (0::int))]"
  have "search_inv bs t cap D 0 (pq_item_state ` set ?pq) (dom [?z \<mapsto> (0::int)])"
    using search_inv_init[OF wf cap0] by simp
  from dijkstra_loop_correct[OF wf cap0 capm hz this]
  show ?thesis by (simp add: solve_machine_part2_dijkstra_def dijkstra_init_def Let_def)
qed

subsection \<open>Claim C3\<close>

lemma map_of_subset_image:
  "set es \<subseteq> f ` A \<Longrightarrow> \<exists>ps. es = map f ps \<and> set ps \<subseteq> A"
proof (induction es)
  case Nil
  then show ?case by simp
next
  case (Cons e es)
  then obtain ps where ps: "es = map f ps" "set ps \<subseteq> A" by auto
  from Cons.prems obtain x where x: "x \<in> A" "e = f x" by auto
  have "e # es = map f (x # ps) \<and> set (x # ps) \<subseteq> A" using ps x by simp
  then show ?case by (rule exI[of _ "x # ps"])
qed

lemma within_targets_self:
  assumes "well_formed_machine bs t"
  shows "within_targets t t"
  using well_formed_machineD(2)[OF assms] by (simp add: within_targets_def)

lemma reachw_target_iff:
  assumes wf: "well_formed_machine bs t"
  shows "reachw bs t k t \<longleftrightarrow> (\<exists>ps. presses_reach bs t ps \<and> length ps = k)"
proof
  assume "reachw bs t k t"
  then have "reach (eff_machine bs t) k t" by (simp add: reachw_def)
  then obtain es where es: "set es \<subseteq> effective t ` set bs" "length es = k"
    "run_presses (length t) es = t"
    unfolding reach_def eff_machine_def by auto
  from map_of_subset_image[OF es(1)] obtain ps where
    ps: "es = map (effective t) ps" "set ps \<subseteq> set bs" by blast
  have "presses_reach bs t ps \<and> length ps = k"
    using es ps by (simp add: presses_reach_def)
  then show "\<exists>ps. presses_reach bs t ps \<and> length ps = k" ..
next
  assume "\<exists>ps. presses_reach bs t ps \<and> length ps = k"
  then obtain ps where ps: "set ps \<subseteq> set bs"
    "run_presses (length t) (map (effective t) ps) = t" "length ps = k"
    unfolding presses_reach_def by blast
  have "set (map (effective t) ps) \<subseteq> set (map (effective t) bs)" using ps(1) by auto
  then have "reach (eff_machine bs t) k t"
    unfolding reach_def eff_machine_def using ps(2,3)
    by (intro exI[of _ "map (effective t) ps"]) simp
  then show "reachw bs t k t"
    using within_targets_self[OF wf] by (simp add: reachw_def)
qed

lemma horizon_unreachable:
  assumes wf: "well_formed_machine bs t" and no: "\<forall>ps. \<not> presses_reach bs t ps"
  shows "horizon bs t cap 0" and "\<not> (\<exists>k. reachw bs t k t)"
  using no by (simp_all add: horizon_def reachw_target_iff[OF wf])

lemma horizon_shortest:
  assumes wf: "well_formed_machine bs t" and r: "presses_reach bs t ps"
    and short: "\<forall>ps'. presses_reach bs t ps' \<longrightarrow> length ps \<le> length ps'"
    and le: "int (length ps) \<le> cap"
  shows "horizon bs t cap (length ps)" and "\<exists>k. reachw bs t k t"
proof -
  have "\<exists>ps'. presses_reach bs t ps' \<and> length ps' = length ps" using r by blast
  then have 1: "reachw bs t (length ps) t" by (simp only: reachw_target_iff[OF wf])
  moreover have "\<forall>k. reachw bs t k t \<longrightarrow> length ps \<le> k"
  proof (intro allI impI)
    fix k assume "reachw bs t k t"
    then have "\<exists>ps'. presses_reach bs t ps' \<and> length ps' = k"
      by (simp only: reachw_target_iff[OF wf])
    then obtain ps' where "presses_reach bs t ps'" "length ps' = k" by blast
    then show "length ps \<le> k" using short by blast
  qed
  ultimately show "horizon bs t cap (length ps)" using le by (simp add: horizon_def)
  show "\<exists>k. reachw bs t k t" using 1 ..
qed

lemma solvers_unreachable:
  assumes wf: "well_formed_machine bs t" and cap0: "0 \<le> cap"
    and capm: "cap * int (length bs) < INT_MAX"
    and no: "\<forall>ps. \<not> presses_reach bs t ps"
  shows "solve_machine_part2_bounded bs t cap = Some (Inr (- 1))"
    and "solve_machine_part2_dijkstra bs t cap = Some (Inr (- 1))"
  using bounded_solver_correct[OF wf cap0 capm horizon_unreachable(1)[OF wf no]]
    dijkstra_solver_correct[OF wf cap0 capm horizon_unreachable(1)[OF wf no]]
    horizon_unreachable(2)[OF wf no]
  by simp_all

lemma solvers_shortest:
  assumes wf: "well_formed_machine bs t" and cap0: "0 \<le> cap"
    and capm: "cap * int (length bs) < INT_MAX"
    and r: "presses_reach bs t ps"
    and short: "\<forall>ps'. presses_reach bs t ps' \<longrightarrow> length ps \<le> length ps'"
    and le: "int (length ps) \<le> cap"
  shows "solve_machine_part2_bounded bs t cap = Some (Inr (int (length ps)))"
    and "solve_machine_part2_dijkstra bs t cap = Some (Inr (int (length ps)))"
  using bounded_solver_correct[OF wf cap0 capm horizon_shortest(1)[OF wf r short le]]
    dijkstra_solver_correct[OF wf cap0 capm horizon_shortest(1)[OF wf r short le]]
    horizon_shortest(2)[OF wf r short le]
  by simp_all

lemma one_button_no_sequence: "\<not> presses_reach [[0]] [0, 1] ps"
proof
  assume "presses_reach [[0]] [0, 1] ps"
  then have a: "set ps \<subseteq> set [[0]]"
    "run_presses (length [0::int, 1]) (map (effective [0, 1]) ps) = [0, 1]"
    unfolding presses_reach_def by blast+
  have "set (map (effective [0, 1]) ps) \<subseteq> set (buttons unreachable_machine)"
    using a(1) by (auto simp: unreachable_machine_def effective_def)
  moreover have "run_presses (length (target unreachable_machine)) (map (effective [0, 1]) ps)
      = target unreachable_machine"
    using a(2) by (simp add: unreachable_machine_def)
  ultimately show False using unreachable_machine_no_sequence by blast
qed

lemma one_press_shortest:
  "presses_reach [[0]] [1] [[0]] \<and>
   (\<forall>ps'. presses_reach [[0]] [1] ps' \<longrightarrow> length [[0::int]] \<le> length ps')"
proof (intro conjI allI impI)
  show "presses_reach [[0]] [1] [[0]]"
    by (simp add: presses_reach_def effective_def run_presses_def press_effect_def add_one_def)
next
  fix ps' :: "int list list"
  assume "presses_reach [[0]] [1] ps'"
  then have "ps' \<noteq> []" by (auto simp: presses_reach_def run_presses_def)
  then show "length [[0::int]] \<le> length ps'" by (cases ps') auto
qed

text \<open>
  Claim C3, as the code has it.  On a machine line whose targets are \<open>int\<close>s between 0 and
  \<open>INT_MAX - 1\<close> and whose buttons have no negative entry (and fewer buttons than would
  let the press counts overflow), the bounded search with its default cap of 50 and the
  Dijkstra search with its default cap of 100 both return -1 when no sequence of presses
  reaches the targets, and both return the length of a shortest such sequence when that
  length is at most 50.
\<close>

theorem day10_solvers_agree_within_50:
  "well_formed_machine buttons' targets \<and> 100 * int (length buttons') < INT_MAX \<longrightarrow>
     ((\<forall>ps. \<not> presses_reach buttons' targets ps) \<longrightarrow>
        bounded_default buttons' targets = Some (Inr (- 1)) \<and>
        dijkstra_default buttons' targets = Some (Inr (- 1))) \<and>
     (\<forall>ps. presses_reach buttons' targets ps \<and> length ps \<le> 50 \<and>
           (\<forall>ps'. presses_reach buttons' targets ps' \<longrightarrow> length ps \<le> length ps') \<longrightarrow>
        bounded_default buttons' targets = Some (Inr (int (length ps))) \<and>
        dijkstra_default buttons' targets = Some (Inr (int (length ps))))"
proof (intro impI conjI allI)
  assume a: "well_formed_machine buttons' targets \<and> 100 * int (length buttons') < INT_MAX"
  then have wf: "well_formed_machine buttons' targets"
    and m100: "100 * int (length buttons') < INT_MAX"
    and m50: "50 * int (length buttons') < INT_MAX" by simp_all
  {
    assume no: "\<forall>ps. \<not> presses_reach buttons' targets ps"
    show "bounded_default buttons' targets = Some (Inr (- 1))"
      unfolding bounded_default_def by (rule solvers_unreachable(1)[OF wf _ m50 no]) simp
    show "dijkstra_default buttons' targets = Some (Inr (- 1))"
      unfolding dijkstra_default_def by (rule solvers_unreachable(2)[OF wf _ m100 no]) simp
  }
  {
    fix ps
    assume b: "presses_reach buttons' targets ps \<and> length ps \<le> 50 \<and>
           (\<forall>ps'. presses_reach buttons' targets ps' \<longrightarrow> length ps \<le> length ps')"
    then have r: "presses_reach buttons' targets ps" and le: "length ps \<le> 50"
      and short: "\<forall>ps'. presses_reach buttons' targets ps' \<longrightarrow> length ps \<le> length ps'"
      by simp_all
    show "bounded_default buttons' targets = Some (Inr (int (length ps)))"
      unfolding bounded_default_def
      by (rule solvers_shortest(1)[OF wf _ m50 r short]) (use le in simp_all)
    show "dijkstra_default buttons' targets = Some (Inr (int (length ps)))"
      unfolding dijkstra_default_def
      by (rule solvers_shortest(2)[OF wf _ m100 r short]) (use le in simp_all)
  }
qed

theorem day10_solvers_agree_within_50_witness:
  "bounded_default [[0]] [0, 1] = Some (Inr (- 1)) \<and>
   dijkstra_default [[0]] [0, 1] = Some (Inr (- 1)) \<and>
   bounded_default [[0]] [1] = Some (Inr 1) \<and>
   dijkstra_default [[0]] [1] = Some (Inr 1)"
proof -
  have w1: "well_formed_machine [[0]] [0, 1] \<and> 100 * int (length [[0::int]]) < INT_MAX"
    by (simp add: well_formed_machine_def INT_MAX_def)
  have w2: "well_formed_machine [[0]] [1] \<and> 100 * int (length [[0::int]]) < INT_MAX"
    by (simp add: well_formed_machine_def INT_MAX_def)
  have n1: "\<forall>ps. \<not> presses_reach [[0]] [0, 1] ps" using one_button_no_sequence by blast
  have s2: "presses_reach [[0]] [1] [[0]] \<and> length [[0::int]] \<le> 50 \<and>
      (\<forall>ps'. presses_reach [[0]] [1] ps' \<longrightarrow> length [[0::int]] \<le> length ps')"
    using one_press_shortest by simp
  from day10_solvers_agree_within_50[of "[[0]]" "[0, 1]", THEN mp, OF w1, THEN conjunct1,
      THEN mp, OF n1]
    day10_solvers_agree_within_50[of "[[0]]" "[1]", THEN mp, OF w2, THEN conjunct2,
      THEN spec[where x = "[[0]]"], THEN mp, OF s2]
  show ?thesis by simp
qed

text \<open>
  The claim as written fails: the caps differ.  The line \<open>[.] (0) {51}\<close> needs the one
  button 51 times; the bounded search stops at 50 presses of it and returns -1, the
  Dijkstra search returns 51.
\<close>

theorem day10_solvers_differ_counterexample:
  "well_formed_machine [[0]] [51] \<and>
   presses_reach [[0]] [51] (replicate 51 [0]) \<and>
   bounded_default [[0]] [51] = Some (Inr (- 1)) \<and>
   dijkstra_default [[0]] [51] = Some (Inr 51)"
  by (intro conjI; code_simp)

end
